theory Spec2Isabelle
  imports Main
begin

section \<open>Characters and strings\<close>

text \<open>
  A JavaScript string is a sequence of UTF-16 code units. The model uses HOL strings and
  reads a \<^typ>\<open>char\<close> as the code unit with the same number (U+0000 to U+00FF).
  The classes below are those of ECMAScript restricted to that range: white space
  (\<^verbatim>\<open>\s\<close> and \<^verbatim>\<open>trim\<close>) is TAB, LF, VT, FF, CR, SPACE and
  NBSP; digits (\<^verbatim>\<open>\d\<close>) are 0-9; word characters (\<^verbatim>\<open>\w\<close>, used by
  \<^verbatim>\<open>\b\<close>) are letters, digits and the underscore.
\<close>

definition is_space :: "char \<Rightarrow> bool" where
  "is_space c = (of_char c \<in> {9, 10, 11, 12, 13, 32, 160 :: nat})"

definition is_digit :: "char \<Rightarrow> bool" where
  "is_digit c = (let n = of_char c :: nat in 48 \<le> n \<and> n \<le> 57)"

definition is_word_char :: "char \<Rightarrow> bool" where
  "is_word_char c = (let n = of_char c :: nat in
     (97 \<le> n \<and> n \<le> 122) \<or> (65 \<le> n \<and> n \<le> 90) \<or> (48 \<le> n \<and> n \<le> 57) \<or> n = 95)"

text \<open>
  Case folding of a regular expression with the flag \<^verbatim>\<open>i\<close> (and without
  \<^verbatim>\<open>u\<close>) compares the upper-case forms of single code units. In the modelled range
  the code units with an upper-case form in the range are a-z and U+00E0 to U+00FE
  without U+00F7; the upper-case form is 32 below, which clears bit 5. The other code
  units of the range stand for themselves.
\<close>

definition has_upper_case :: "char \<Rightarrow> bool" where
  "has_upper_case c = (let n = of_char c :: nat in
     (97 \<le> n \<and> n \<le> 122) \<or> (224 \<le> n \<and> n \<le> 254 \<and> n \<noteq> 247))"

fun minus_32 :: "char \<Rightarrow> char" where
  "minus_32 (Char b0 b1 b2 b3 b4 b5 b6 b7) = Char b0 b1 b2 b3 b4 False b6 b7"

definition canonicalize :: "char \<Rightarrow> char" where
  "canonicalize c = (if has_upper_case c then minus_32 c else c)"

text \<open>\<^verbatim>\<open>String.prototype.trim\<close>: white space is removed at both ends.\<close>

definition trim :: "string \<Rightarrow> string" where
  "trim s = rev (dropWhile is_space (rev (dropWhile is_space s)))"

text \<open>
  \<^verbatim>\<open>s.replace(/^['"]|['"]$/g, '')\<close>: one quote character is removed at the start and
  one at the end; the second alternative cannot match the character the first one
  already consumed.
\<close>

definition is_quote :: "char \<Rightarrow> bool" where
  "is_quote c = (c = CHR 0x27 \<or> c = CHR 0x22)"

definition strip_quotes :: "string \<Rightarrow> string" where
  "strip_quotes s =
     (let s1 = (case s of [] \<Rightarrow> [] | c # cs \<Rightarrow> if is_quote c then cs else s)
      in if s1 \<noteq> [] \<and> is_quote (last s1) then butlast s1 else s1)"

section \<open>Regular expressions of the filter\<close>

text \<open>
  \<^verbatim>\<open>escapeRegex\<close>: every character of the class
  \<^verbatim>\<open>[.*+?^${}()|[\]\\]\<close> gets a backslash in front of it.
\<close>

definition is_syntax_char :: "char \<Rightarrow> bool" where
  "is_syntax_char c = (c \<in> set ''.*+?^${}()|[]'' \<or> c = CHR 0x5C)"

fun escapeRegex :: "string \<Rightarrow> string" where
  "escapeRegex [] = []"
| "escapeRegex (c # cs) =
     (if is_syntax_char c then CHR 0x5C # c # escapeRegex cs else c # escapeRegex cs)"

text \<open>
  A regular expression object is kept as its source text; every one the program builds
  has the flag \<^verbatim>\<open>i\<close>. The two templates of the program:
  \<^verbatim>\<open>`\\b\\d*${escapeRegex(t)}\\b`\<close> for an exclusion and
  \<^verbatim>\<open>`\\b\\d*${escapeRegex(t)}s?\\b`\<close> for an inclusion term.
\<close>

datatype regexp = RegExp (source: string)

definition exclusion_regexp :: "string \<Rightarrow> regexp" where
  "exclusion_regexp t = RegExp ([CHR 0x5C] @ ''b'' @ [CHR 0x5C] @ ''d*'' @ escapeRegex t @ [CHR 0x5C] @ ''b'')"

definition inclusion_regexp :: "string \<Rightarrow> regexp" where
  "inclusion_regexp t = RegExp ([CHR 0x5C] @ ''b'' @ [CHR 0x5C] @ ''d*'' @ escapeRegex t @ ''s?'' @ [CHR 0x5C] @ ''b'')"

text \<open>
  The pattern language the sources above are written in: the assertion
  \<^verbatim>\<open>\b\<close>, the atoms \<^verbatim>\<open>\d\<close>, an escaped syntax character and a plain
  character, and the greedy quantifiers \<^verbatim>\<open>*\<close> and \<^verbatim>\<open>?\<close> behind an atom.
  A source outside this language has no reading here (\<open>None\<close>).
\<close>

datatype atom = AChar char | ADigit

datatype node = WordBoundary | One atom | Star atom | Opt atom

fun quantified :: "atom \<Rightarrow> string \<Rightarrow> node \<times> string" where
  "quantified a [] = (One a, [])"
| "quantified a (q # r) =
     (if q = CHR ''*'' then (Star a, r)
      else if q = CHR ''?'' then (Opt a, r)
      else (One a, q # r))"

lemma quantified_length:
  "length (snd (quantified a r)) \<le> length r"
  by (cases r) auto

function parse_pattern :: "string \<Rightarrow> node list option" where
  "parse_pattern [] = Some []"
| "parse_pattern (c # cs) =
     (if c = CHR 0x5C then
        (case cs of
           [] \<Rightarrow> None
         | e # r \<Rightarrow>
            if e = CHR ''b'' then map_option ((#) WordBoundary) (parse_pattern r)
            else if e = CHR ''d'' then
              map_option ((#) (fst (quantified ADigit r))) (parse_pattern (snd (quantified ADigit r)))
            else if is_syntax_char e then
              map_option ((#) (fst (quantified (AChar e) r))) (parse_pattern (snd (quantified (AChar e) r)))
            else None)
      else if is_syntax_char c then None
      else map_option ((#) (fst (quantified (AChar c) cs))) (parse_pattern (snd (quantified (AChar c) cs))))"
  by pat_completeness auto
termination
  by (relation "measure length")
     (auto simp: less_Suc_eq_le intro: le_SucI quantified_length)

text \<open>
  Matching, by backtracking over the nodes. \<open>prev\<close> is the character in front of the
  current position (\<open>None\<close> at the start of the input), which \<^verbatim>\<open>\b\<close> compares
  with the character at the position: the assertion holds when exactly one of the two
  is a word character.
\<close>

fun atom_matches :: "atom \<Rightarrow> char \<Rightarrow> bool" where
  "atom_matches (AChar c) x = (canonicalize c = canonicalize x)"
| "atom_matches ADigit x = is_digit x"

definition word_at :: "char option \<Rightarrow> bool" where
  "word_at c = (case c of None \<Rightarrow> False | Some x \<Rightarrow> is_word_char x)"

definition next_char :: "string \<Rightarrow> char option" where
  "next_char s = (case s of [] \<Rightarrow> None | x # _ \<Rightarrow> Some x)"

function matches_here :: "node list \<Rightarrow> char option \<Rightarrow> string \<Rightarrow> bool" where
  "matches_here [] prev s = True"
| "matches_here (WordBoundary # ns) prev s =
     (word_at prev \<noteq> word_at (next_char s) \<and> matches_here ns prev s)"
| "matches_here (One a # ns) prev [] = False"
| "matches_here (One a # ns) prev (x # xs) = (atom_matches a x \<and> matches_here ns (Some x) xs)"
| "matches_here (Star a # ns) prev [] = matches_here ns prev []"
| "matches_here (Star a # ns) prev (x # xs) =
     ((atom_matches a x \<and> matches_here (Star a # ns) (Some x) xs) \<or> matches_here ns prev (x # xs))"
| "matches_here (Opt a # ns) prev [] = matches_here ns prev []"
| "matches_here (Opt a # ns) prev (x # xs) =
     ((atom_matches a x \<and> matches_here ns (Some x) xs) \<or> matches_here ns prev (x # xs))"
  by pat_completeness auto
termination
  by (relation "measures [\<lambda>(ns, prev, s). length s, \<lambda>(ns, prev, s). length ns]") auto

text \<open>
  \<^verbatim>\<open>RegExp.prototype.test\<close> of a regular expression without the flags
  \<^verbatim>\<open>g\<close> and \<^verbatim>\<open>y\<close>: a match is looked for at every start position, the
  end of the input included.
\<close>

fun matches_from :: "node list \<Rightarrow> char option \<Rightarrow> string \<Rightarrow> bool" where
  "matches_from ns prev [] = matches_here ns prev []"
| "matches_from ns prev (x # xs) = (matches_here ns prev (x # xs) \<or> matches_from ns (Some x) xs)"

definition regexp_test :: "regexp \<Rightarrow> string \<Rightarrow> bool" where
  "regexp_test r s =
     (case parse_pattern (source r) of None \<Rightarrow> False | Some ns \<Rightarrow> matches_from ns None s)"

section \<open>TagFilter\<close>

subsection \<open>Exclusions\<close>

text \<open>\<^verbatim>\<open>str.split(',')\<close>: the pieces between the commas, empty pieces included.\<close>

fun split_comma :: "string \<Rightarrow> string \<Rightarrow> string list" where
  "split_comma acc [] = [rev acc]"
| "split_comma acc (c # cs) =
     (if c = CHR '','' then rev acc # split_comma [] cs else split_comma (c # acc) cs)"

text \<open>
  \<^verbatim>\<open>parseExclusions(str)\<close>. The argument is \<open>None\<close> when the option is
  \<^verbatim>\<open>undefined\<close>; \<^verbatim>\<open>!str\<close> also holds for the empty string.
  \<^verbatim>\<open>filter(Boolean)\<close> drops the empty strings.
\<close>

definition parseExclusions :: "string option \<Rightarrow> regexp list" where
  "parseExclusions str =
     (case str of
        None \<Rightarrow> []
      | Some s \<Rightarrow>
          if s = [] then []
          else map exclusion_regexp
                 (filter (\<lambda>t. t \<noteq> []) (map (\<lambda>t. strip_quotes (trim t)) (split_comma [] s))))"

subsection \<open>Tokens of the include query\<close>

text \<open>
  The separator \<^verbatim>\<open>/\s+(AND|OR|NOT)\s+|\s*(\(|\))\s*/i\<close>, matched at the start of
  \<open>s\<close>. The result is the text of the two capture groups (\<open>None\<close> for the group
  that did not take part) and the input behind the match. Both \<^verbatim>\<open>\s+\<close> and
  \<^verbatim>\<open>\s*\<close> are greedy, and giving white space back cannot help either
  alternative, since the next character would then be white space.
\<close>

definition keyword_at :: "string \<Rightarrow> (string \<times> string) option" where
  "keyword_at s =
     (if map canonicalize (take 3 s) = ''AND'' then Some (take 3 s, drop 3 s)
      else if map canonicalize (take 2 s) = ''OR'' then Some (take 2 s, drop 2 s)
      else if map canonicalize (take 3 s) = ''NOT'' then Some (take 3 s, drop 3 s)
      else None)"

definition match_keyword :: "string \<Rightarrow> (string \<times> string) option" where
  "match_keyword s =
     (if takeWhile is_space s = [] then None
      else (case keyword_at (dropWhile is_space s) of
              None \<Rightarrow> None
            | Some (kw, r) \<Rightarrow>
                if takeWhile is_space r = [] then None
                else Some (kw, dropWhile is_space r)))"

definition match_paren :: "string \<Rightarrow> (string \<times> string) option" where
  "match_paren s =
     (case dropWhile is_space s of
        [] \<Rightarrow> None
      | c # r \<Rightarrow>
          if c = CHR ''('' \<or> c = CHR '')'' then Some ([c], dropWhile is_space r)
          else None)"

definition match_separator :: "string \<Rightarrow> (string option \<times> string option \<times> string) option" where
  "match_separator s =
     (case match_keyword s of
        Some (kw, r) \<Rightarrow> Some (Some kw, None, r)
      | None \<Rightarrow>
          (case match_paren s of
             Some (p, r) \<Rightarrow> Some (None, Some p, r)
           | None \<Rightarrow> None))"

lemma keyword_at_length: "keyword_at s = Some (kw, r) \<Longrightarrow> length r < length s"
proof -
  assume k: "keyword_at s = Some (kw, r)"
  then have "s \<noteq> []"
    by (auto simp: keyword_at_def split: if_splits)
  moreover from k have "r = drop 3 s \<or> r = drop 2 s"
    by (auto simp: keyword_at_def split: if_splits)
  ultimately show ?thesis
    by (cases s) auto
qed

lemma match_keyword_length: "match_keyword s = Some (kw, r) \<Longrightarrow> length r < length s"
proof -
  assume m: "match_keyword s = Some (kw, r)"
  then obtain r1 where k: "keyword_at (dropWhile is_space s) = Some (kw, r1)"
    and r: "r = dropWhile is_space r1"
    by (auto simp: match_keyword_def split: if_splits option.splits)
  have "length r \<le> length r1"
    unfolding r by (rule length_dropWhile_le)
  also have "length r1 < length (dropWhile is_space s)"
    using k by (rule keyword_at_length)
  also have "\<dots> \<le> length s"
    by (rule length_dropWhile_le)
  finally show ?thesis .
qed

lemma match_paren_length: "match_paren s = Some (p, r) \<Longrightarrow> length r < length s"
proof -
  assume m: "match_paren s = Some (p, r)"
  then obtain c r1 where d: "dropWhile is_space s = c # r1" and r: "r = dropWhile is_space r1"
    by (auto simp: match_paren_def split: list.splits if_splits)
  have "length r \<le> length r1"
    unfolding r by (rule length_dropWhile_le)
  also have "length r1 < length (dropWhile is_space s)"
    by (simp add: d)
  also have "\<dots> \<le> length s"
    by (rule length_dropWhile_le)
  finally show ?thesis .
qed

lemma match_separator_length:
  "match_separator s = Some (g1, g2, r) \<Longrightarrow> length r < length s"
  by (auto simp: match_separator_def split: option.splits
           dest: match_keyword_length match_paren_length)

text \<open>
  \<^verbatim>\<open>query.split(separator)\<close>: the separator is tried at every position from the
  end of the last match on; at a match the piece in front of it and the two capture
  groups are put out, \<^verbatim>\<open>undefined\<close> (\<open>None\<close>) for a group that did not take
  part; the piece behind the last match ends the list. \<open>acc\<close> is the piece read so
  far, in reverse.
\<close>

function split_query :: "string \<Rightarrow> string \<Rightarrow> string option list" where
  "split_query acc [] = [Some (rev acc)]"
| "split_query acc (c # cs) =
     (case match_separator (c # cs) of
        Some (g1, g2, r) \<Rightarrow> Some (rev acc) # g1 # g2 # split_query [] r
      | None \<Rightarrow> split_query (c # acc) cs)"
  by pat_completeness auto
termination
  by (relation "measure (\<lambda>(acc, s). length s)")
     (auto dest: match_separator_length)

text \<open>\<^verbatim>\<open>.filter(t => t && t.trim())\<close>\<close>

definition keep_token :: "string option \<Rightarrow> bool" where
  "keep_token t = (case t of None \<Rightarrow> False | Some s \<Rightarrow> s \<noteq> [] \<and> trim s \<noteq> [])"

definition tokens :: "string \<Rightarrow> string list" where
  "tokens query = map the (filter keep_token (split_query [] query))"

subsection \<open>The expression text and the terms\<close>

text \<open>
  \<^verbatim>\<open>parseInclusions\<close> writes JavaScript text: \<^verbatim>\<open>' && '\<close>,
  \<^verbatim>\<open>' || '\<close>, \<^verbatim>\<open>' !'\<close>, \<^verbatim>\<open>'('\<close>, \<^verbatim>\<open>')'\<close> and
  \<^verbatim>\<open>`Terms[${index}].test(prompt)`\<close>, and \<^verbatim>\<open>"true"\<close> for a blank query.
  Each of these is kept as one token of the expression; no two of them run together
  when the text is read again.
\<close>

datatype jtok = AndTok | OrTok | NotTok | LParen | RParen | TermTest nat | TrueLit

text \<open>
  \<^verbatim>\<open>mapOperator(op)\<close>. It is called with one of the five operator texts only; the
  last line, \<^verbatim>\<open>return op\<close>, then gives a parenthesis back.
\<close>

definition mapOperator :: "string \<Rightarrow> jtok" where
  "mapOperator op =
     (if op = ''AND'' then AndTok
      else if op = ''OR'' then OrTok
      else if op = ''NOT'' then NotTok
      else if op = ''('' then LParen
      else RParen)"

text \<open>
  \<^verbatim>\<open>toUpperCase\<close>, on the modelled range. The three code units of the range whose
  upper-case form lies outside it are left as they are; they differ from every
  character of an operator text either way.
\<close>

definition toUpperCase :: "string \<Rightarrow> string" where
  "toUpperCase s = map canonicalize s"

definition is_operator :: "string \<Rightarrow> bool" where
  "is_operator upper = (upper \<in> set [''AND'', ''OR'', ''NOT'', ''('', '')''])"

text \<open>
  The body of \<^verbatim>\<open>tokens.forEach\<close>, with \<^verbatim>\<open>terms\<close> and
  \<^verbatim>\<open>expression\<close> threaded through. A term token is not trimmed: only one quote
  at each end is removed.
\<close>

fun add_tokens :: "string list \<Rightarrow> regexp list \<times> jtok list \<Rightarrow> regexp list \<times> jtok list" where
  "add_tokens [] acc = acc"
| "add_tokens (token # rest) (terms, expression) =
     (let upper = trim (toUpperCase token) in
      if is_operator upper then add_tokens rest (terms, expression @ [mapOperator upper])
      else
        (let index = length terms;
             cleanTag = strip_quotes token
         in add_tokens rest
              (terms @ [inclusion_regexp cleanTag], expression @ [TermTest index])))"

definition parseInclusions :: "string option \<Rightarrow> regexp list \<times> jtok list" where
  "parseInclusions query =
     (case query of
        None \<Rightarrow> ([], [TrueLit])
      | Some q \<Rightarrow>
          if q = [] \<or> trim q = [] then ([], [TrueLit])
          else add_tokens (tokens q) ([], []))"

subsection \<open>Reading the expression as JavaScript\<close>

text \<open>
  \<^verbatim>\<open>new Function(..., `... return ${expression};`)\<close> reads the expression with
  the grammar of JavaScript. For the tokens above that grammar is

  \<^item> LogicalOR: LogicalAND, or LogicalOR \<^verbatim>\<open>||\<close> LogicalAND;
  \<^item> LogicalAND: Unary, or LogicalAND \<^verbatim>\<open>&&\<close> Unary;
  \<^item> Unary: \<^verbatim>\<open>!\<close> Unary, or Call;
  \<^item> Call: Primary followed by any number of argument lists, each
    \<^verbatim>\<open>( )\<close> or \<^verbatim>\<open>(\<close> LogicalOR \<^verbatim>\<open>)\<close>;
  \<^item> Primary: \<^verbatim>\<open>true\<close>, a term test, or \<^verbatim>\<open>(\<close> LogicalOR \<^verbatim>\<open>)\<close>.

  A text that the grammar does not accept is a \<^verbatim>\<open>SyntaxError\<close> (\<open>None\<close>).
\<close>

datatype jsexp = JTrue | JTest nat | JNot jsexp | JAnd jsexp jsexp | JOr jsexp jsexp
  | JCall jsexp "jsexp option"

definition starts_with :: "jtok \<Rightarrow> jtok list \<Rightarrow> bool" where
  "starts_with t ts = (case ts of [] \<Rightarrow> False | x # _ \<Rightarrow> x = t)"

lemma starts_with_length: "starts_with t ts \<Longrightarrow> length (tl ts) < length ts"
  by (cases ts) (auto simp: starts_with_def)

function
    parse_or :: "jtok list \<Rightarrow> (jsexp \<times> jtok list) option"
and parse_or_rest :: "jsexp \<Rightarrow> jtok list \<Rightarrow> (jsexp \<times> jtok list) option"
and parse_and :: "jtok list \<Rightarrow> (jsexp \<times> jtok list) option"
and parse_and_rest :: "jsexp \<Rightarrow> jtok list \<Rightarrow> (jsexp \<times> jtok list) option"
and parse_unary :: "jtok list \<Rightarrow> (jsexp \<times> jtok list) option"
and parse_call_rest :: "jsexp \<Rightarrow> jtok list \<Rightarrow> (jsexp \<times> jtok list) option"
and parse_primary :: "jtok list \<Rightarrow> (jsexp \<times> jtok list) option"
where
  "parse_or ts = (case parse_and ts of None \<Rightarrow> None | Some (e, r) \<Rightarrow> parse_or_rest e r)"
| "parse_or_rest e ts =
     (if starts_with OrTok ts then
        (case parse_and (tl ts) of None \<Rightarrow> None | Some (e', r) \<Rightarrow> parse_or_rest (JOr e e') r)
      else Some (e, ts))"
| "parse_and ts = (case parse_unary ts of None \<Rightarrow> None | Some (e, r) \<Rightarrow> parse_and_rest e r)"
| "parse_and_rest e ts =
     (if starts_with AndTok ts then
        (case parse_unary (tl ts) of None \<Rightarrow> None | Some (e', r) \<Rightarrow> parse_and_rest (JAnd e e') r)
      else Some (e, ts))"
| "parse_unary ts =
     (if starts_with NotTok ts then
        (case parse_unary (tl ts) of None \<Rightarrow> None | Some (e, r) \<Rightarrow> Some (JNot e, r))
      else (case parse_primary ts of None \<Rightarrow> None | Some (e, r) \<Rightarrow> parse_call_rest e r))"
| "parse_call_rest f ts =
     (if starts_with LParen ts then
        (if starts_with RParen (tl ts) then parse_call_rest (JCall f None) (tl (tl ts))
         else (case parse_or (tl ts) of
                 None \<Rightarrow> None
               | Some (a, r) \<Rightarrow>
                   if starts_with RParen r then parse_call_rest (JCall f (Some a)) (tl r)
                   else None))
      else Some (f, ts))"
| "parse_primary ts =
     (if starts_with TrueLit ts then Some (JTrue, tl ts)
      else if starts_with LParen ts then
        (case parse_or (tl ts) of
           None \<Rightarrow> None
         | Some (e, r) \<Rightarrow> if starts_with RParen r then Some (e, tl r) else None)
      else (case ts of TermTest i # ts' \<Rightarrow> Some (JTest i, ts') | _ \<Rightarrow> None))"
  by pat_completeness auto

text \<open>
  Termination: every parser that reads an operand leaves strictly less input behind, and
  the three loops leave no more.
\<close>

termination
proof -
  have shorter:
    "parse_or_parse_or_rest_parse_and_parse_and_rest_parse_unary_parse_call_rest_parse_primary_dom (Inl (Inl ts1))
       \<Longrightarrow> (\<forall>e r. parse_or ts1 = Some (e, r) \<longrightarrow> length r < length ts1)"
    "parse_or_parse_or_rest_parse_and_parse_and_rest_parse_unary_parse_call_rest_parse_primary_dom (Inl (Inr (Inl (e2, ts2))))
       \<Longrightarrow> (\<forall>e r. parse_or_rest e2 ts2 = Some (e, r) \<longrightarrow> length r \<le> length ts2)"
    "parse_or_parse_or_rest_parse_and_parse_and_rest_parse_unary_parse_call_rest_parse_primary_dom (Inl (Inr (Inr ts3)))
       \<Longrightarrow> (\<forall>e r. parse_and ts3 = Some (e, r) \<longrightarrow> length r < length ts3)"
    "parse_or_parse_or_rest_parse_and_parse_and_rest_parse_unary_parse_call_rest_parse_primary_dom (Inr (Inl (Inl (e4, ts4))))
       \<Longrightarrow> (\<forall>e r. parse_and_rest e4 ts4 = Some (e, r) \<longrightarrow> length r \<le> length ts4)"
    "parse_or_parse_or_rest_parse_and_parse_and_rest_parse_unary_parse_call_rest_parse_primary_dom (Inr (Inl (Inr ts5)))
       \<Longrightarrow> (\<forall>e r. parse_unary ts5 = Some (e, r) \<longrightarrow> length r < length ts5)"
    "parse_or_parse_or_rest_parse_and_parse_and_rest_parse_unary_parse_call_rest_parse_primary_dom (Inr (Inr (Inl (e6, ts6))))
       \<Longrightarrow> (\<forall>e r. parse_call_rest e6 ts6 = Some (e, r) \<longrightarrow> length r \<le> length ts6)"
    "parse_or_parse_or_rest_parse_and_parse_and_rest_parse_unary_parse_call_rest_parse_primary_dom (Inr (Inr (Inr ts7)))
       \<Longrightarrow> (\<forall>e r. parse_primary ts7 = Some (e, r) \<longrightarrow> length r < length ts7)"
    for ts1 e2 ts2 ts3 e4 ts4 ts5 e6 ts6 ts7
  proof (induct rule: parse_or_parse_or_rest_parse_and_parse_and_rest_parse_unary_parse_call_rest_parse_primary.pinduct)
    case (1 ts)
    then show ?case
      by (fastforce simp: parse_or.psimps split: option.splits)
  next
    case (2 e ts)
    then show ?case
      using starts_with_length [of OrTok ts]
      by (fastforce simp: parse_or_rest.psimps split: option.splits if_splits)
  next
    case (3 ts)
    then show ?case
      by (fastforce simp: parse_and.psimps split: option.splits)
  next
    case (4 e ts)
    then show ?case
      using starts_with_length [of AndTok ts]
      by (fastforce simp: parse_and_rest.psimps split: option.splits if_splits)
  next
    case (5 ts)
    then show ?case
      using starts_with_length [of NotTok ts]
      by (fastforce simp: parse_unary.psimps split: option.splits if_splits)
  next
    case (6 f ts)
    then show ?case
      using starts_with_length [of LParen ts] starts_with_length [of RParen "tl ts"]
        starts_with_length [of RParen]
      by (fastforce simp: parse_call_rest.psimps split: option.splits if_splits)
  next
    case (7 ts)
    then show ?case
      using starts_with_length [of LParen ts] starts_with_length [of TrueLit ts]
        starts_with_length [of RParen]
      by (fastforce simp: parse_primary.psimps
            split: option.splits if_splits list.splits jtok.splits)
  qed
  show ?thesis
    apply (relation "measure (\<lambda>x. case x of
        Inl (Inl ts) \<Rightarrow> 4 * length ts + 3
      | Inl (Inr (Inl (e, ts))) \<Rightarrow> 4 * length ts + 4
      | Inl (Inr (Inr ts)) \<Rightarrow> 4 * length ts + 2
      | Inr (Inl (Inl (e, ts))) \<Rightarrow> 4 * length ts + 4
      | Inr (Inl (Inr ts)) \<Rightarrow> 4 * length ts + 1
      | Inr (Inr (Inl (e, ts))) \<Rightarrow> 4 * length ts + 4
      | Inr (Inr (Inr ts)) \<Rightarrow> 4 * length ts)")
    apply (auto dest!: shorter [rule_format] starts_with_length)
    done
qed

text \<open>
  The body of the function is \<^verbatim>\<open>return\<close>, the expression and a semicolon: the
  expression has to use up the text. An empty expression would be the statement
  \<^verbatim>\<open>return ;\<close>, which is accepted and gives \<^verbatim>\<open>undefined\<close>.
\<close>

datatype body = ReturnNothing | Return jsexp

definition parse_body :: "jtok list \<Rightarrow> body option" where
  "parse_body ts =
     (if ts = [] then Some ReturnNothing
      else (case parse_or ts of
              Some (e, []) \<Rightarrow> Some (Return e)
            | _ \<Rightarrow> None))"

subsection \<open>Running the compiled predicate\<close>

text \<open>
  The values of the expression are booleans: a term test gives one, and \<^verbatim>\<open>!\<close>,
  \<^verbatim>\<open>&&\<close> and \<^verbatim>\<open>||\<close> give booleans on booleans, the last two without
  evaluating their right operand when the left one decides. A call finds a boolean where
  it needs a function and throws a \<^verbatim>\<open>TypeError\<close>, after the callee and the
  argument have been evaluated. A term index outside \<^verbatim>\<open>Terms\<close> would read
  \<^verbatim>\<open>undefined.test\<close>, a \<^verbatim>\<open>TypeError\<close> as well.
\<close>

datatype exn = TypeError

fun eval :: "regexp list \<Rightarrow> string \<Rightarrow> jsexp \<Rightarrow> exn + bool" where
  "eval Terms prompt JTrue = Inr True"
| "eval Terms prompt (JTest i) =
     (if i < length Terms then Inr (regexp_test (Terms ! i) prompt) else Inl TypeError)"
| "eval Terms prompt (JNot e) =
     (case eval Terms prompt e of Inl x \<Rightarrow> Inl x | Inr b \<Rightarrow> Inr (\<not> b))"
| "eval Terms prompt (JAnd a b) =
     (case eval Terms prompt a of
        Inl x \<Rightarrow> Inl x
      | Inr v \<Rightarrow> if v then eval Terms prompt b else Inr False)"
| "eval Terms prompt (JOr a b) =
     (case eval Terms prompt a of
        Inl x \<Rightarrow> Inl x
      | Inr v \<Rightarrow> if v then Inr True else eval Terms prompt b)"
| "eval Terms prompt (JCall f None) =
     (case eval Terms prompt f of Inl x \<Rightarrow> Inl x | Inr v \<Rightarrow> Inl TypeError)"
| "eval Terms prompt (JCall f (Some a)) =
     (case eval Terms prompt f of
        Inl x \<Rightarrow> Inl x
      | Inr v \<Rightarrow> (case eval Terms prompt a of Inl x \<Rightarrow> Inl x | Inr w \<Rightarrow> Inl TypeError))"

text \<open>
  The predicate \<^verbatim>\<open>compile\<close> returns: \<^verbatim>\<open>() => true\<close>, or the function
  built by \<^verbatim>\<open>new Function\<close> and bound to the terms and the exclusions. Its result is
  \<open>Inl\<close> for an exception; \<^verbatim>\<open>undefined\<close> counts as \<open>False\<close>, the only use
  of the result being \<^verbatim>\<open>!this.filter.test(...)\<close>.
\<close>

datatype predicate = AlwaysTrue | Compiled "regexp list" "regexp list" body

text \<open>
  The loop over \<^verbatim>\<open>Exclusions\<close> in front of the expression; \<open>True\<close> is its
  \<^verbatim>\<open>return false\<close> at the first exclusion that matches.
\<close>

fun excluded :: "regexp list \<Rightarrow> string \<Rightarrow> bool" where
  "excluded [] prompt = False"
| "excluded (x # xs) prompt = (if regexp_test x prompt then True else excluded xs prompt)"

fun run_predicate :: "predicate \<Rightarrow> string \<Rightarrow> exn + bool" where
  "run_predicate AlwaysTrue prompt = Inr True"
| "run_predicate (Compiled Terms Exclusions b) prompt =
     (if excluded Exclusions prompt then Inr False
      else (case b of ReturnNothing \<Rightarrow> Inr False | Return e \<Rightarrow> eval Terms prompt e))"

text \<open>
  \<^verbatim>\<open>compile(query, excludeString)\<close>. \<open>None\<close> is the \<^verbatim>\<open>catch\<close> branch: the
  message "Invalid Logic Syntax" and \<^verbatim>\<open>process.exit(1)\<close>.
\<close>

definition compile :: "string option \<Rightarrow> string option \<Rightarrow> predicate option" where
  "compile query excludeString =
     (let exclusions = parseExclusions excludeString;
          (terms, expression) = parseInclusions query
      in if length exclusions = 0 \<and> length terms = 0 then Some AlwaysTrue
         else (case parse_body expression of
                 None \<Rightarrow> None
               | Some b \<Rightarrow> Some (Compiled terms exclusions b)))"

text \<open>\<^verbatim>\<open>test(prompt)\<close>: \<^verbatim>\<open>prompt || ""\<close> turns an absent prompt into the empty string.\<close>

definition test :: "predicate \<Rightarrow> string option \<Rightarrow> exn + bool" where
  "test p prompt = run_predicate p (case prompt of None \<Rightarrow> [] | Some s \<Rightarrow> s)"

section \<open>Image records and the metadata cache\<close>

text \<open>
  An image record of the listing: its \<^verbatim>\<open>id\<close> (a number or a string),
  \<^verbatim>\<open>url\<close>, \<^verbatim>\<open>meta?.prompt\<close> (\<open>None\<close> when \<^verbatim>\<open>meta\<close> or the prompt
  is missing) and the fields the program never looks at, kept as they came.
\<close>

datatype ident = IdNum int | IdStr string

record item =
  item_id :: ident
  url :: string
  prompt :: "string option"
  other_fields :: "(string \<times> string) list"

text \<open>\<^verbatim>\<open>id.toString()\<close>: a number in decimal, a string as it is.\<close>

fun decimal :: "nat \<Rightarrow> string" where
  "decimal n =
     (if n < 10 then [char_of (48 + n)]
      else decimal (n div 10) @ [char_of (48 + n mod 10)])"

fun toString :: "ident \<Rightarrow> string" where
  "toString (IdNum n) = (if n < 0 then CHR ''-'' # decimal (nat (- n)) else decimal (nat n))"
| "toString (IdStr s) = s"

text \<open>
  A JavaScript \<^verbatim>\<open>Map\<close> keeps its entries in insertion order; \<^verbatim>\<open>set\<close> on a
  key that is present replaces the value where it stands.
\<close>

fun map_set :: "'k \<Rightarrow> 'v \<Rightarrow> ('k \<times> 'v) list \<Rightarrow> ('k \<times> 'v) list" where
  "map_set k v [] = [(k, v)]"
| "map_set k v ((k', v') # m) = (if k' = k then (k, v) # m else (k', v') # map_set k v m)"

text \<open>
  The backing file \<^verbatim>\<open>metadata.json\<close>: missing, not readable as an array of
  records, or the array that \<^verbatim>\<open>JSON.parse\<close> gives back.
  \<open>writable\<close> tells whether \<^verbatim>\<open>writeFileSync\<close> succeeds.
\<close>

datatype metadata_file = NoFile | Corrupt | Records "item list"

record filesystem =
  metadata_json :: metadata_file
  dir_listing :: "string list"
  writable :: bool

record cache =
  data :: "(ident \<times> item) list"
  files :: "string set"

definition new_cache :: cache where
  "new_cache = \<lparr>data = [], files = {}\<rparr>"

text \<open>
  \<^verbatim>\<open>loadMetadata()\<close>. The result says whether the warning about a corrupt file
  was printed. \<^verbatim>\<open>new Map(pairs)\<close> sets the pairs one after the other.
\<close>

definition loadMetadata :: "filesystem \<Rightarrow> cache \<Rightarrow> cache \<times> bool" where
  "loadMetadata fs c =
     (case metadata_json fs of
        NoFile \<Rightarrow> (c, False)
      | Corrupt \<Rightarrow> (c, True)
      | Records arr \<Rightarrow>
          (c\<lparr>data := foldl (\<lambda>m r. map_set (item_id r) r m) [] arr\<rparr>, False))"

text \<open>
  \<^verbatim>\<open>path.parse(f).name\<close> of a directory entry: the name up to its last dot, or
  the whole name when it has no dot, only a leading one, or is \<^verbatim>\<open>..\<close>.
\<close>

definition file_stem :: "string \<Rightarrow> string" where
  "file_stem f =
     (let after = takeWhile (\<lambda>c. c \<noteq> CHR ''.'') (rev f);
          dot = length f - length after - 1
      in if length after = length f \<or> dot = 0 \<or> f = ''..'' then f else take dot f)"

definition loadFiles :: "filesystem \<Rightarrow> cache \<Rightarrow> cache" where
  "loadFiles fs c = c\<lparr>files := set (map file_stem (dir_listing fs))\<rparr>"

definition getAll :: "cache \<Rightarrow> item list" where
  "getAll c = map snd (data c)"

text \<open>
  \<^verbatim>\<open>save()\<close>. The result says whether the write failed (the message
  "Failed to save metadata"); the file is then left as it was.
\<close>

definition save :: "cache \<Rightarrow> filesystem \<Rightarrow> filesystem \<times> bool" where
  "save c fs =
     (if writable fs then (fs\<lparr>metadata_json := Records (getAll c)\<rparr>, False)
      else (fs, True))"

definition upsertBatch :: "item list \<Rightarrow> cache \<Rightarrow> cache" where
  "upsertBatch its c = c\<lparr>data := foldl (\<lambda>m r. map_set (item_id r) r m) (data c) its\<rparr>"

definition isEmpty :: "cache \<Rightarrow> bool" where
  "isEmpty c = (length (data c) = 0)"

definition hasFile :: "cache \<Rightarrow> ident \<Rightarrow> bool" where
  "hasFile c i = (toString i \<in> files c)"

section \<open>CivitDownloader\<close>

record config =
  username :: string
  sort_order :: string
  nsfw :: string
  limit :: int
  offline :: bool

text \<open>
  What the run does to the outside, in the order it does it: page requests, the
  in-memory upsert of a page, every scanned record, every download job handed to the
  queue, every write of the metadata file (with the ids written), and the messages.
\<close>

datatype message =
    UserHasNoImages | UserNotFound | AuthorizationFailed | ApiError
  | CorruptMetadata | FailedToSave | FatalError | Summary

datatype event =
    Fetch string | Upsert "ident list" | Scan ident | Enqueue ident
  | Save "ident list" | Print message

record state =
  scanned :: int
  matches :: int
  downloaded :: int
  skipped :: int
  store :: cache
  fs :: filesystem
  queue :: "item list"
  events :: "event list"

definition emit :: "event \<Rightarrow> state \<Rightarrow> state" where
  "emit e st = st\<lparr>events := events st @ [e]\<rparr>"

text \<open>The calls of \<^verbatim>\<open>this.cache\<close> on the state of the run.\<close>

definition cache_save :: "state \<Rightarrow> state" where
  "cache_save st =
     (let st1 = emit (Save (map item_id (getAll (store st)))) st;
          (fs', failed) = save (store st) (fs st)
      in if failed then emit (Print FailedToSave) (st1\<lparr>fs := fs'\<rparr>) else st1\<lparr>fs := fs'\<rparr>)"

definition cache_upsertBatch :: "item list \<Rightarrow> state \<Rightarrow> state" where
  "cache_upsertBatch its st =
     emit (Upsert (map item_id its)) (st\<lparr>store := upsertBatch its (store st)\<rparr>)"

definition isLimitReached :: "config \<Rightarrow> state \<Rightarrow> bool" where
  "isLimitReached cfg st = (matches st \<ge> limit cfg)"

definition updateScanStats :: "state \<Rightarrow> state" where
  "updateScanStats st = st\<lparr>scanned := scanned st + 1\<rparr>"

definition enqueueDownload :: "item \<Rightarrow> state \<Rightarrow> state" where
  "enqueueDownload it st =
     emit (Enqueue (item_id it)) (st\<lparr>downloaded := downloaded st + 1, queue := queue st @ [it]\<rparr>)"

text \<open>
  \<^verbatim>\<open>processBatch(items)\<close>. The first component of the result is the exception
  that left the loop, if one did: \<^verbatim>\<open>this.filter.test\<close> can throw. The state keeps
  what was done before it.
\<close>

fun processBatch :: "config \<Rightarrow> predicate \<Rightarrow> item list \<Rightarrow> state \<Rightarrow> exn option \<times> state" where
  "processBatch cfg flt [] st = (None, st)"
| "processBatch cfg flt (it # its) st =
     (if isLimitReached cfg st then (None, st)
      else
        (let st1 = emit (Scan (item_id it)) (updateScanStats st) in
         case test flt (prompt it) of
           Inl e \<Rightarrow> (Some e, st1)
         | Inr ok \<Rightarrow>
             if \<not> ok then processBatch cfg flt its st1
             else
               (let st2 = st1\<lparr>matches := matches st1 + 1\<rparr> in
                if hasFile (store st2) (item_id it)
                then processBatch cfg flt its (st2\<lparr>skipped := skipped st2 + 1\<rparr>)
                else processBatch cfg flt its (enqueueDownload it st2))))"

text \<open>
  The listing endpoint: a page with its items and \<^verbatim>\<open>metadata.nextPage\<close>, or a
  failed request with the status of the response, if there was one.
\<close>

record page =
  items :: "item list"
  nextPage :: "string option"

datatype fetch_result = Data page | HttpError "nat option"

definition classify :: "nat option \<Rightarrow> message" where
  "classify status =
     (if status = Some 404 then UserNotFound
      else if status \<in> {Some 401, Some 403} then AuthorizationFailed
      else ApiError)"

definition fetchPage :: "(string \<Rightarrow> fetch_result) \<Rightarrow> string \<Rightarrow> state \<Rightarrow> page option \<times> state" where
  "fetchPage server u st =
     (let st1 = emit (Fetch u) st in
      case server u of
        Data d \<Rightarrow> (Some d, st1)
      | HttpError status \<Rightarrow> (None, cache_save (emit (Print (classify status)) st1)))"

definition isUserEmpty :: "item list \<Rightarrow> state \<Rightarrow> bool" where
  "isUserEmpty its st = (scanned st = 0 \<and> length its = 0)"

text \<open>A URL is truthy when it is there and not the empty string.\<close>

definition truthy :: "string option \<Rightarrow> bool" where
  "truthy u = (case u of None \<Rightarrow> False | Some s \<Rightarrow> s \<noteq> [])"

text \<open>
  The loop of \<^verbatim>\<open>runOnlineStrategy\<close>. A listing whose pages never end keeps the
  loop going for as long as no limit is reached, so the loop gets a bound on its
  rounds; \<open>None\<close> says the bound was used up before the loop ended.
\<close>

fun online_loop ::
  "nat \<Rightarrow> config \<Rightarrow> predicate \<Rightarrow> (string \<Rightarrow> fetch_result) \<Rightarrow> string option \<Rightarrow> state
     \<Rightarrow> (exn option \<times> state) option" where
  "online_loop n cfg flt server nextUrl st =
     (if \<not> (truthy nextUrl \<and> \<not> isLimitReached cfg st) then Some (None, st)
      else
        (case n of
           0 \<Rightarrow> None
         | Suc n' \<Rightarrow>
             (case fetchPage server (the nextUrl) st of
                (None, st1) \<Rightarrow> Some (None, st1)
              | (Some response, st1) \<Rightarrow>
                  if isUserEmpty (items response) st1
                  then Some (None, emit (Print UserHasNoImages) st1)
                  else
                    (let st2 = cache_upsertBatch (items response) st1 in
                     case processBatch cfg flt (items response) st2 of
                       (Some e, st3) \<Rightarrow> Some (Some e, st3)
                     | (None, st3) \<Rightarrow>
                         (let st4 = cache_save st3;
                              next = (if matches st4 \<ge> limit cfg then None
                                      else nextPage response)
                          in online_loop n' cfg flt server next st4)))))"

definition first_url :: "config \<Rightarrow> string" where
  "first_url cfg =
     ''https://civitai.com/api/v1/images?username='' @ username cfg @ ''&sort='' @ sort_order cfg
       @ ''&nsfw='' @ nsfw cfg @ ''&limit=200''"

definition runOnlineStrategy ::
  "nat \<Rightarrow> config \<Rightarrow> predicate \<Rightarrow> (string \<Rightarrow> fetch_result) \<Rightarrow> state \<Rightarrow> (exn option \<times> state) option" where
  "runOnlineStrategy n cfg flt server st = online_loop n cfg flt server (Some (first_url cfg)) st"

definition runOfflineStrategy :: "config \<Rightarrow> predicate \<Rightarrow> state \<Rightarrow> exn option \<times> state" where
  "runOfflineStrategy cfg flt st = processBatch cfg flt (getAll (store st)) st"

text \<open>
  \<^verbatim>\<open>finalize()\<close>: the wait for the queue, the last save and the summary.
\<close>

definition finalize :: "state \<Rightarrow> state" where
  "finalize st = emit (Print Summary) (cache_save st)"

text \<open>
  \<^verbatim>\<open>initialize()\<close>: the metadata file and the file index are read; the first
  component of the result says whether the error for the offline mode with an empty
  cache is thrown.
\<close>

definition initial_state :: "filesystem \<Rightarrow> state" where
  "initial_state f =
     \<lparr>scanned = 0, matches = 0, downloaded = 0, skipped = 0, store = new_cache, fs = f,
      queue = [], events = []\<rparr>"

definition initialize :: "config \<Rightarrow> state \<Rightarrow> bool \<times> state" where
  "initialize cfg st =
     (let (c1, warned) = loadMetadata (fs st) (store st);
          st1 = (if warned then emit (Print CorruptMetadata) st else st);
          st2 = st1\<lparr>store := loadFiles (fs st) c1\<rparr>
      in (offline cfg \<and> isEmpty (store st2), st2))"

text \<open>
  \<^verbatim>\<open>run()\<close>. How it ends: through \<^verbatim>\<open>finalize\<close>, through its
  \<^verbatim>\<open>catch\<close> block (the save and the message "Fatal Error"), or with the error of
  \<^verbatim>\<open>initialize\<close>, which is thrown outside the \<^verbatim>\<open>try\<close> and leaves
  \<^verbatim>\<open>run\<close>.
\<close>

datatype ending = Finalized | Caught exn | InitializeFailed

definition on_error :: "exn \<Rightarrow> state \<Rightarrow> ending \<times> state" where
  "on_error e st = (Caught e, emit (Print FatalError) (cache_save st))"

definition run ::
  "nat \<Rightarrow> config \<Rightarrow> predicate \<Rightarrow> (string \<Rightarrow> fetch_result) \<Rightarrow> filesystem \<Rightarrow> (ending \<times> state) option" where
  "run n cfg flt server f =
     (case initialize cfg (initial_state f) of
        (True, st) \<Rightarrow> Some (InitializeFailed, st)
      | (False, st) \<Rightarrow>
          if offline cfg then
            (case runOfflineStrategy cfg flt st of
               (Some e, st1) \<Rightarrow> Some (on_error e st1)
             | (None, st1) \<Rightarrow> Some (Finalized, finalize st1))
          else
            (case runOnlineStrategy n cfg flt server st of
               None \<Rightarrow> None
             | Some (Some e, st1) \<Rightarrow> Some (on_error e st1)
             | Some (None, st1) \<Rightarrow> Some (Finalized, finalize st1)))"

section \<open>Example data\<close>

definition record_of :: "int \<Rightarrow> string \<Rightarrow> item" where
  "record_of i p = \<lparr>item_id = IdNum i, url = ''https://image.example/'' @ decimal (nat i),
                    prompt = Some p, other_fields = []\<rparr>"

text \<open>
  The scenario of the specification: limit 2, two pages of three records each, the
  records 1 and 4 match the filter \<open>cat\<close>, no file is on disk. The listing names a third
  page, which answers 404.
\<close>

definition example_config :: config where
  "example_config = \<lparr>username = ''artist'', sort_order = ''Newest'', nsfw = ''X'', limit = 2, offline = False\<rparr>"

definition example_page1 :: page where
  "example_page1 =
     \<lparr>items = [record_of 1 ''a cat'', record_of 2 ''a dog'', record_of 3 ''a bird''],
      nextPage = Some ''page2''\<rparr>"

definition example_page2 :: page where
  "example_page2 =
     \<lparr>items = [record_of 4 ''two cats'', record_of 5 ''a cat'', record_of 6 ''a fish''],
      nextPage = Some ''page3''\<rparr>"

definition example_server :: "string \<Rightarrow> fetch_result" where
  "example_server u =
     (if u = first_url example_config then Data example_page1
      else if u = ''page2'' then Data example_page2
      else HttpError (Some 404))"

text \<open>A listing that answers every request with 404.\<close>

definition failing_server :: "string \<Rightarrow> fetch_result" where
  "failing_server u = HttpError (Some 404)"

definition example_filter :: predicate where
  "example_filter = Compiled [inclusion_regexp ''cat''] [] (Return (JTest 0))"

definition example_fs :: filesystem where
  "example_fs = \<lparr>metadata_json = NoFile, dir_listing = [], writable = True\<rparr>"

text \<open>Two pages of a listing that overlap in the record 2.\<close>

definition overlapping_pages :: "item list list" where
  "overlapping_pages =
     (record_of 1 ''a'' # record_of 2 ''old'' # []) # (record_of 2 ''new'' # record_of 3 ''c'' # []) # []"

section \<open>The metadata cache: one entry per id\<close>

lemma map_of_map_set: "map_of (map_set k v m) = (map_of m)(k \<mapsto> v)"
  by (induction m) (auto simp: fun_eq_iff)

lemma keys_map_set:
  "map fst (map_set k v m) = (if k \<in> fst ` set m then map fst m else map fst m @ [k])"
  by (induction m) force+

lemma distinct_map_set: "distinct (map fst m) \<Longrightarrow> distinct (map fst (map_set k v m))"
  by (simp add: keys_map_set)

lemma set_keys_map_set: "fst ` set (map_set k v m) = insert k (fst ` set m)"
  using keys_map_set [of k v m, THEN arg_cong, of set]
  by (auto split: if_splits)

text \<open>Every key of the map is the id of the record stored under it.\<close>

definition keyed :: "(ident \<times> item) list \<Rightarrow> bool" where
  "keyed m = (\<forall>(k, v) \<in> set m. k = item_id v)"

lemma keyed_map_set: "keyed m \<Longrightarrow> keyed (map_set (item_id r) r m)"
  by (induction m) (auto simp: keyed_def split: if_splits)

lemma keyed_values: "keyed m \<Longrightarrow> map item_id (map snd m) = map fst m"
  by (induction m) (auto simp: keyed_def)

lemma find_append_last:
  "find P (xs @ [x]) =
     (case find P xs of Some y \<Rightarrow> Some y | None \<Rightarrow> if P x then Some x else None)"
  by (induction xs) auto

lemma foldl_put_distinct:
  "distinct (map fst m) \<Longrightarrow> distinct (map fst (foldl (\<lambda>m r. map_set (item_id r) r m) m its))"
  by (induction its arbitrary: m) (auto simp: distinct_map_set)

lemma foldl_put_keyed:
  "keyed m \<Longrightarrow> keyed (foldl (\<lambda>m r. map_set (item_id r) r m) m its)"
  by (induction its arbitrary: m) (auto simp: keyed_map_set)

lemma foldl_put_keys:
  "fst ` set (foldl (\<lambda>m r. map_set (item_id r) r m) m its) = fst ` set m \<union> item_id ` set its"
  by (induction its arbitrary: m) (auto simp: set_keys_map_set)

lemma foldl_put_map_of:
  "map_of (foldl (\<lambda>m r. map_set (item_id r) r m) m its) k =
     (case find (\<lambda>x. item_id x = k) (rev its) of Some r \<Rightarrow> Some r | None \<Rightarrow> map_of m k)"
proof (induction its arbitrary: m)
  case Nil
  then show ?case by simp
next
  case (Cons a its)
  show ?case
    by (simp add: Cons.IH map_of_map_set find_append_last split: option.splits)
qed

lemma data_foldl_upsertBatch:
  "data (foldl (\<lambda>c b. upsertBatch b c) c bs) =
     foldl (\<lambda>m r. map_set (item_id r) r m) (data c) (concat bs)"
  by (induction bs arbitrary: c) (auto simp: upsertBatch_def)

text \<open>
  C7. After any sequence of \<^verbatim>\<open>upsertBatch\<close> calls on a new cache, with ids that
  may repeat within and across the batches: the ids of \<^verbatim>\<open>getAll()\<close> are pairwise
  different and are exactly the ids that were inserted; every entry is the last record
  that was inserted with its id; and the length of \<^verbatim>\<open>getAll()\<close> is the number of
  different ids inserted.
\<close>

theorem upsert_last_write_wins:
  "let c = foldl (\<lambda>c b. upsertBatch b c) new_cache batches; all = concat batches in
     distinct (map item_id (getAll c))
     \<and> set (map item_id (getAll c)) = item_id ` set all
     \<and> (\<forall>r \<in> set (getAll c). find (\<lambda>x. item_id x = item_id r) (rev all) = Some r)
     \<and> length (getAll c) = card (item_id ` set all)"
proof -
  define all where "all = concat batches"
  define m where "m = foldl (\<lambda>m r. map_set (item_id r) r m) [] all"
  have d: "data (foldl (\<lambda>c b. upsertBatch b c) new_cache batches) = m"
    by (simp add: data_foldl_upsertBatch m_def all_def new_cache_def)
  have k: "keyed m"
    unfolding m_def by (rule foldl_put_keyed) (simp add: keyed_def)
  have dist: "distinct (map fst m)"
    unfolding m_def by (rule foldl_put_distinct) simp
  have keys: "fst ` set m = item_id ` set all"
    unfolding m_def by (simp add: foldl_put_keys)
  have ids: "map item_id (map snd m) = map fst m"
    using k by (rule keyed_values)
  have last: "find (\<lambda>x. item_id x = item_id r) (rev all) = Some r" if "r \<in> snd ` set m" for r
  proof -
    from that obtain k0 where in_m: "(k0, r) \<in> set m" by force
    with k have "k0 = item_id r" by (auto simp: keyed_def)
    with in_m dist have "map_of m (item_id r) = Some r" by simp
    then show ?thesis
      unfolding m_def by (simp add: foldl_put_map_of split: option.splits)
  qed
  have len: "length (map snd m) = card (item_id ` set all)"
  proof -
    have "card (item_id ` set all) = card (set (map fst m))" by (simp add: keys)
    also have "\<dots> = length (map fst m)" using dist by (rule distinct_card)
    finally show ?thesis by simp
  qed
  have A: "distinct (map item_id (map snd m))"
    using dist by (simp only: ids)
  have B: "set (map item_id (map snd m)) = item_id ` set all"
    using keys by (simp only: ids) simp
  have C: "\<forall>r \<in> set (map snd m). find (\<lambda>x. item_id x = item_id r) (rev all) = Some r"
    using last by simp
  show ?thesis
    unfolding Let_def getAll_def d all_def [symmetric]
    using A B C len by blast
qed

text \<open>
  Two pages that overlap in the id 2: the record of the second page stands in the place
  of the first, and three entries are left.
\<close>

theorem upsert_last_write_wins_witness:
  "record_of 2 ''new'' \<in> set (getAll (foldl (\<lambda>c b. upsertBatch b c) new_cache overlapping_pages))
   \<and> find (\<lambda>x. item_id x = item_id (record_of 2 ''new'')) (rev (concat overlapping_pages))
      = Some (record_of 2 ''new'')
   \<and> map item_id (getAll (foldl (\<lambda>c b. upsertBatch b c) new_cache overlapping_pages))
      = [IdNum 1, IdNum 2, IdNum 3]
   \<and> length (getAll (foldl (\<lambda>c b. upsertBatch b c) new_cache overlapping_pages)) = 3"
proof -
  have mem: "record_of 2 ''new'' \<in> set (getAll (foldl (\<lambda>c b. upsertBatch b c) new_cache overlapping_pages))"
    by (simp add: overlapping_pages_def getAll_def upsertBatch_def new_cache_def record_of_def)
  have ids: "map item_id (getAll (foldl (\<lambda>c b. upsertBatch b c) new_cache overlapping_pages))
      = [IdNum 1, IdNum 2, IdNum 3]"
    by (simp add: overlapping_pages_def getAll_def upsertBatch_def new_cache_def record_of_def)
  have len: "length (getAll (foldl (\<lambda>c b. upsertBatch b c) new_cache overlapping_pages)) = 3"
    by (simp add: overlapping_pages_def getAll_def upsertBatch_def new_cache_def record_of_def)
  from upsert_last_write_wins [of overlapping_pages]
  have "\<forall>r \<in> set (getAll (foldl (\<lambda>c b. upsertBatch b c) new_cache overlapping_pages)).
      find (\<lambda>x. item_id x = item_id r) (rev (concat overlapping_pages)) = Some r"
    unfolding Let_def by blast
  with mem ids len show ?thesis by blast
qed

text \<open>
  C8. \<^verbatim>\<open>save()\<close> followed by \<^verbatim>\<open>loadMetadata()\<close> of a cache object on the
  file that was written (a new one, or any other: the load replaces the map) gives a
  cache whose \<^verbatim>\<open>getAll()\<close> has the same set of ids, whatever the other fields of
  the records hold. The write has to succeed: a failed \<^verbatim>\<open>save()\<close> leaves the old
  file.
\<close>

theorem save_load_round_trip:
  "writable f \<Longrightarrow>
     set (map item_id (getAll (fst (loadMetadata (fst (save c f)) c0)))) = set (map item_id (getAll c))"
proof -
  assume w: "writable f"
  define m where "m = foldl (\<lambda>m r. map_set (item_id r) r m) [] (getAll c)"
  have k: "keyed m"
    unfolding m_def by (rule foldl_put_keyed) (simp add: keyed_def)
  have "set (map item_id (map snd m)) = fst ` set m"
    by (simp only: keyed_values [OF k]) simp
  also have "\<dots> = item_id ` set (getAll c)"
    unfolding m_def by (simp add: foldl_put_keys)
  finally have "set (map item_id (map snd m)) = set (map item_id (getAll c))"
    by simp
  moreover have "getAll (fst (loadMetadata (fst (save c f)) c0)) = map snd m"
    using w by (simp add: save_def loadMetadata_def m_def getAll_def)
  ultimately show ?thesis by simp
qed

theorem save_load_round_trip_witness:
  "writable \<lparr>metadata_json = NoFile, dir_listing = [], writable = True\<rparr>
   \<and> set (map item_id (getAll (fst (loadMetadata
        (fst (save (upsertBatch [record_of 7 ''a cat''\<lparr>other_fields := [(''hash'', ''U5H2'')]\<rparr>,
                                  record_of 9 ''a dog''] new_cache)
                   \<lparr>metadata_json = NoFile, dir_listing = [], writable = True\<rparr>))
        new_cache))))
     = {IdNum 7, IdNum 9}"
proof -
  have w: "writable \<lparr>metadata_json = NoFile, dir_listing = [], writable = True\<rparr>"
    by simp
  have "set (map item_id (getAll (upsertBatch
          [record_of 7 ''a cat''\<lparr>other_fields := [(''hash'', ''U5H2'')]\<rparr>, record_of 9 ''a dog'']
          new_cache))) = {IdNum 7, IdNum 9}"
    by (simp add: getAll_def upsertBatch_def new_cache_def record_of_def)
  with w save_load_round_trip [OF w, of
      "upsertBatch [record_of 7 ''a cat''\<lparr>other_fields := [(''hash'', ''U5H2'')]\<rparr>,
                    record_of 9 ''a dog''] new_cache" new_cache]
  show ?thesis by simp
qed

section \<open>The patterns of the terms\<close>

definition no_quantifier :: "string \<Rightarrow> bool" where
  "no_quantifier s = (case s of [] \<Rightarrow> True | q # _ \<Rightarrow> q \<noteq> CHR ''*'' \<and> q \<noteq> CHR ''?'')"

lemma quantified_One: "no_quantifier s \<Longrightarrow> quantified a s = (One a, s)"
  by (cases s) (auto simp: no_quantifier_def)

lemma no_quantifier_escapeRegex:
  "no_quantifier rest \<Longrightarrow> no_quantifier (escapeRegex t @ rest)"
  by (cases t) (auto simp: no_quantifier_def is_syntax_char_def)

lemma syntax_char_not_class: "is_syntax_char c \<Longrightarrow> c \<noteq> CHR ''b'' \<and> c \<noteq> CHR ''d''"
  by (auto simp: is_syntax_char_def)

lemma backslash_is_syntax_char: "is_syntax_char (CHR 0x5C)"
  by (simp add: is_syntax_char_def)

text \<open>An escaped term is read back as the characters of the term, one atom each.\<close>

lemma parse_pattern_escapeRegex:
  "no_quantifier rest \<Longrightarrow>
   parse_pattern (escapeRegex t @ rest) =
     map_option ((@) (map (\<lambda>c. One (AChar c)) t)) (parse_pattern rest)"
proof (induction t)
  case Nil
  show ?case by (simp add: option.map_ident)
next
  case (Cons c cs)
  have nq: "no_quantifier (escapeRegex cs @ rest)"
    using Cons.prems by (rule no_quantifier_escapeRegex)
  show ?case
  proof (cases "is_syntax_char c")
    case True
    then show ?thesis
      using syntax_char_not_class [OF True]
      by (simp add: quantified_One [OF nq] Cons.IH [OF Cons.prems] option.map_comp comp_def)
  next
    case False
    then have "c \<noteq> CHR 0x5C"
      using backslash_is_syntax_char by auto
    with False show ?thesis
      by (simp add: quantified_One [OF nq] Cons.IH [OF Cons.prems] option.map_comp comp_def)
  qed
qed

lemma inclusion_pattern_shape:
  "parse_pattern (source (inclusion_regexp t)) =
     Some ([WordBoundary, Star ADigit] @ map (\<lambda>c. One (AChar c)) t
            @ [Opt (AChar CHR ''s''), WordBoundary])"
proof -
  have tail: "parse_pattern [CHR ''s'', CHR ''?'', CHR 0x5C, CHR ''b'']
                = Some [Opt (AChar CHR ''s''), WordBoundary]"
    by (simp add: is_syntax_char_def)
  have nq: "no_quantifier [CHR ''s'', CHR ''?'', CHR 0x5C, CHR ''b'']"
    by (simp add: no_quantifier_def)
  show ?thesis
    by (simp add: inclusion_regexp_def parse_pattern_escapeRegex [OF nq] tail is_syntax_char_def)
qed

lemma exclusion_pattern_shape:
  "parse_pattern (source (exclusion_regexp t)) =
     Some ([WordBoundary, Star ADigit] @ map (\<lambda>c. One (AChar c)) t @ [WordBoundary])"
proof -
  have tail: "parse_pattern [CHR 0x5C, CHR ''b''] = Some [WordBoundary]"
    by simp
  have nq: "no_quantifier [CHR 0x5C, CHR ''b'']"
    by (simp add: no_quantifier_def)
  show ?thesis
    by (simp add: exclusion_regexp_def parse_pattern_escapeRegex [OF nq] tail)
qed

text \<open>
  The character in front of a position that lies \<open>w\<close> behind a position with \<open>prev\<close>
  in front of it; a word boundary between two parts of a prompt; two texts that differ
  in case only.
\<close>

definition last_char :: "char option \<Rightarrow> string \<Rightarrow> char option" where
  "last_char prev w = (if w = [] then prev else Some (last w))"

definition boundary :: "string \<Rightarrow> string \<Rightarrow> bool" where
  "boundary l r = (word_at (last_char None l) \<noteq> word_at (next_char r))"

definition same_letters :: "string \<Rightarrow> string \<Rightarrow> bool" where
  "same_letters w t = (map canonicalize w = map canonicalize t)"

lemma last_char_append: "last_char prev (xs @ ys) = last_char (last_char prev xs) ys"
  by (simp add: last_char_def)

lemma last_char_Cons: "last_char prev (x # xs) = last_char (Some x) xs"
  by (simp add: last_char_def)

lemma matches_here_literal:
  "matches_here (map (\<lambda>c. One (AChar c)) t @ ns) prev s \<longleftrightarrow>
     (\<exists>w r. s = w @ r \<and> same_letters w t \<and> matches_here ns (last_char prev w) r)"
proof (induction t arbitrary: prev s)
  case Nil
  show ?case by (simp add: same_letters_def last_char_def)
next
  case (Cons c cs)
  show ?case
  proof (cases s)
    case Nil
    then show ?thesis by (simp add: same_letters_def)
  next
    case (Cons x xs)
    have "matches_here (map (\<lambda>c. One (AChar c)) (c # cs) @ ns) prev s \<longleftrightarrow>
        canonicalize c = canonicalize x
        \<and> (\<exists>w r. xs = w @ r \<and> same_letters w cs \<and> matches_here ns (last_char (Some x) w) r)"
      by (simp add: Cons Cons.IH)
    also have "\<dots> \<longleftrightarrow> (\<exists>w r. s = w @ r \<and> same_letters w (c # cs) \<and> matches_here ns (last_char prev w) r)"
    proof
      assume "canonicalize c = canonicalize x
        \<and> (\<exists>w r. xs = w @ r \<and> same_letters w cs \<and> matches_here ns (last_char (Some x) w) r)"
      then obtain w r where "canonicalize c = canonicalize x" "xs = w @ r" "same_letters w cs"
        "matches_here ns (last_char (Some x) w) r" by blast
      then have "s = (x # w) @ r \<and> same_letters (x # w) (c # cs)
          \<and> matches_here ns (last_char prev (x # w)) r"
        by (simp add: Cons same_letters_def last_char_Cons)
      then show "\<exists>w r. s = w @ r \<and> same_letters w (c # cs) \<and> matches_here ns (last_char prev w) r"
        by blast
    next
      assume "\<exists>w r. s = w @ r \<and> same_letters w (c # cs) \<and> matches_here ns (last_char prev w) r"
      then obtain w r where w: "s = w @ r" "same_letters w (c # cs)"
        "matches_here ns (last_char prev w) r" by blast
      from w(2) obtain y ys where y: "w = y # ys" "canonicalize y = canonicalize c" "same_letters ys cs"
        by (cases w) (auto simp: same_letters_def)
      with w Cons show "canonicalize c = canonicalize x
        \<and> (\<exists>w r. xs = w @ r \<and> same_letters w cs \<and> matches_here ns (last_char (Some x) w) r)"
        by (auto simp: last_char_Cons)
    qed
    finally show ?thesis .
  qed
qed

lemma matches_here_digits:
  "matches_here (Star ADigit # ns) prev s \<longleftrightarrow>
     (\<exists>ds r. s = ds @ r \<and> list_all is_digit ds \<and> matches_here ns (last_char prev ds) r)"
proof
  show "matches_here (Star ADigit # ns) prev s \<Longrightarrow>
     \<exists>ds r. s = ds @ r \<and> list_all is_digit ds \<and> matches_here ns (last_char prev ds) r"
  proof (induction s arbitrary: prev)
    case Nil
    then show ?case by (auto simp: last_char_def)
  next
    case (Cons x xs)
    from Cons.prems have "(is_digit x \<and> matches_here (Star ADigit # ns) (Some x) xs)
        \<or> matches_here ns prev (x # xs)"
      by simp
    then show ?case
    proof
      assume a: "is_digit x \<and> matches_here (Star ADigit # ns) (Some x) xs"
      with Cons.IH [of "Some x"] obtain ds r where
        "xs = ds @ r" "list_all is_digit ds" "matches_here ns (last_char (Some x) ds) r"
        by blast
      with a have "x # xs = (x # ds) @ r \<and> list_all is_digit (x # ds)
          \<and> matches_here ns (last_char prev (x # ds)) r"
        by (simp add: last_char_Cons)
      then show ?thesis by blast
    next
      assume "matches_here ns prev (x # xs)"
      then have "x # xs = [] @ (x # xs) \<and> list_all is_digit []
          \<and> matches_here ns (last_char prev []) (x # xs)"
        by (simp add: last_char_def)
      then show ?thesis by blast
    qed
  qed
next
  assume "\<exists>ds r. s = ds @ r \<and> list_all is_digit ds \<and> matches_here ns (last_char prev ds) r"
  then obtain ds r where "s = ds @ r" "list_all is_digit ds" "matches_here ns (last_char prev ds) r"
    by blast
  then show "matches_here (Star ADigit # ns) prev s"
  proof (induction ds arbitrary: prev s)
    case Nil
    then show ?case by (cases s) (auto simp: last_char_def)
  next
    case (Cons d ds)
    from Cons.prems have "matches_here (Star ADigit # ns) (Some d) (ds @ r)"
      by (intro Cons.IH) (auto simp: last_char_Cons)
    with Cons.prems show ?case by simp
  qed
qed

lemma matches_from_iff:
  "matches_from ns prev s \<longleftrightarrow>
     (\<exists>pre r. s = pre @ r \<and> matches_here ns (last_char prev pre) r)"
proof (induction s arbitrary: prev)
  case Nil
  show ?case by (simp add: last_char_def)
next
  case (Cons x xs)
  show ?case
  proof
    assume "matches_from ns prev (x # xs)"
    then have "matches_here ns prev (x # xs) \<or> matches_from ns (Some x) xs" by simp
    then show "\<exists>pre r. x # xs = pre @ r \<and> matches_here ns (last_char prev pre) r"
    proof
      assume "matches_here ns prev (x # xs)"
      then have "x # xs = [] @ (x # xs) \<and> matches_here ns (last_char prev []) (x # xs)"
        by (simp add: last_char_def)
      then show ?thesis by blast
    next
      assume "matches_from ns (Some x) xs"
      with Cons.IH [of "Some x"] obtain pre r where
        "xs = pre @ r" "matches_here ns (last_char (Some x) pre) r" by blast
      then have "x # xs = (x # pre) @ r \<and> matches_here ns (last_char prev (x # pre)) r"
        by (simp add: last_char_Cons)
      then show ?thesis by blast
    qed
  next
    assume "\<exists>pre r. x # xs = pre @ r \<and> matches_here ns (last_char prev pre) r"
    then obtain pre r where p: "x # xs = pre @ r" "matches_here ns (last_char prev pre) r"
      by blast
    show "matches_from ns prev (x # xs)"
    proof (cases pre)
      case Nil
      with p have "matches_here ns prev (x # xs)" by (simp add: last_char_def)
      then show ?thesis by simp
    next
      case (Cons y ys)
      with p have "xs = ys @ r \<and> matches_here ns (last_char (Some x) ys) r"
        by (simp add: last_char_Cons)
      then have "matches_from ns (Some x) xs"
        using Cons.IH [of "Some x"] by blast
      then show ?thesis by simp
    qed
  qed
qed


lemma matches_here_boundary:
  "matches_here [WordBoundary] prev s \<longleftrightarrow> word_at prev \<noteq> word_at (next_char s)"
  by simp

lemma matches_here_optional:
  "matches_here [Opt (AChar c), WordBoundary] prev s \<longleftrightarrow>
     (\<exists>p r. s = p @ r \<and> (p = [] \<or> same_letters p [c])
            \<and> word_at (last_char prev p) \<noteq> word_at (next_char r))"
proof (cases s)
  case Nil
  then show ?thesis by (auto simp: last_char_def same_letters_def)
next
  case (Cons x xs)
  show ?thesis
  proof
    assume "matches_here [Opt (AChar c), WordBoundary] prev s"
    then have "(canonicalize c = canonicalize x \<and> word_at (Some x) \<noteq> word_at (next_char xs))
        \<or> word_at prev \<noteq> word_at (next_char s)"
      by (auto simp: Cons)
    then show "\<exists>p r. s = p @ r \<and> (p = [] \<or> same_letters p [c])
            \<and> word_at (last_char prev p) \<noteq> word_at (next_char r)"
    proof
      assume "canonicalize c = canonicalize x \<and> word_at (Some x) \<noteq> word_at (next_char xs)"
      then have "s = [x] @ xs \<and> ([x] = [] \<or> same_letters [x] [c])
            \<and> word_at (last_char prev [x]) \<noteq> word_at (next_char xs)"
        by (simp add: Cons same_letters_def last_char_def)
      then show ?thesis by blast
    next
      assume "word_at prev \<noteq> word_at (next_char s)"
      then have "s = [] @ s \<and> ([] = [] \<or> same_letters [] [c])
            \<and> word_at (last_char prev []) \<noteq> word_at (next_char s)"
        by (simp add: last_char_def)
      then show ?thesis by blast
    qed
  next
    assume "\<exists>p r. s = p @ r \<and> (p = [] \<or> same_letters p [c])
            \<and> word_at (last_char prev p) \<noteq> word_at (next_char r)"
    then obtain p r where p: "s = p @ r" "p = [] \<or> same_letters p [c]"
      "word_at (last_char prev p) \<noteq> word_at (next_char r)" by blast
    from p(2) show "matches_here [Opt (AChar c), WordBoundary] prev s"
    proof
      assume "p = []"
      with p show ?thesis by (auto simp: Cons last_char_def)
    next
      assume "same_letters p [c]"
      then obtain y where "p = [y]" "canonicalize y = canonicalize c"
        by (cases p) (auto simp: same_letters_def)
      with p show ?thesis by (auto simp: Cons last_char_def)
    qed
  qed
qed

lemma same_letters_append:
  "same_letters w t \<Longrightarrow> same_letters p q \<Longrightarrow> same_letters (w @ p) (t @ q)"
  by (simp add: same_letters_def)

lemma same_letters_split:
  "same_letters w (t @ q) \<Longrightarrow>
     \<exists>w1 w2. w = w1 @ w2 \<and> same_letters w1 t \<and> same_letters w2 q"
proof -
  assume a: "same_letters w (t @ q)"
  then have "map canonicalize (take (length t) w) = map canonicalize t"
    and "map canonicalize (drop (length t) w) = map canonicalize q"
    by (simp_all add: same_letters_def take_map [symmetric] drop_map [symmetric])
  then have "w = take (length t) w @ drop (length t) w \<and> same_letters (take (length t) w) t
      \<and> same_letters (drop (length t) w) q"
    by (simp add: same_letters_def)
  then show ?thesis by blast
qed

text \<open>
  What the two patterns accept, said without the matcher: the prompt holds, behind any
  text, a run of digits and then the letters of the term, for an include term with or
  without an \<open>s\<close> behind them, all compared without regard to case, and a word
  boundary stands in front of the digits and behind the last letter.
\<close>

lemma exclusion_regexp_matches_iff:
  "regexp_test (exclusion_regexp t) P \<longleftrightarrow>
     (\<exists>pre ds w suf. P = pre @ ds @ w @ suf \<and> list_all is_digit ds \<and> same_letters w t
        \<and> boundary pre (ds @ w @ suf) \<and> boundary (pre @ ds @ w) suf)"
proof -
  have "regexp_test (exclusion_regexp t) P \<longleftrightarrow>
      (\<exists>pre r. P = pre @ r \<and> word_at (last_char None pre) \<noteq> word_at (next_char r)
         \<and> (\<exists>ds r2. r = ds @ r2 \<and> list_all is_digit ds
              \<and> (\<exists>w suf. r2 = w @ suf \<and> same_letters w t
                   \<and> word_at (last_char (last_char (last_char None pre) ds) w)
                       \<noteq> word_at (next_char suf))))"
    by (simp add: regexp_test_def exclusion_pattern_shape matches_from_iff matches_here_digits
          matches_here_literal)
  also have "\<dots> \<longleftrightarrow>
     (\<exists>pre ds w suf. P = pre @ ds @ w @ suf \<and> list_all is_digit ds \<and> same_letters w t
        \<and> boundary pre (ds @ w @ suf) \<and> boundary (pre @ ds @ w) suf)"
    by (auto simp: boundary_def last_char_append) blast+
  finally show ?thesis .
qed

lemma inclusion_regexp_matches_iff:
  "regexp_test (inclusion_regexp t) P \<longleftrightarrow>
     (\<exists>pre ds w suf. P = pre @ ds @ w @ suf \<and> list_all is_digit ds
        \<and> (same_letters w t \<or> same_letters w (t @ ''s''))
        \<and> boundary pre (ds @ w @ suf) \<and> boundary (pre @ ds @ w) suf)"
proof -
  have "regexp_test (inclusion_regexp t) P \<longleftrightarrow>
      (\<exists>pre r. P = pre @ r \<and> word_at (last_char None pre) \<noteq> word_at (next_char r)
         \<and> (\<exists>ds r2. r = ds @ r2 \<and> list_all is_digit ds
              \<and> (\<exists>w r3. r2 = w @ r3 \<and> same_letters w t
                   \<and> (\<exists>p suf. r3 = p @ suf \<and> (p = [] \<or> same_letters p ''s'')
                        \<and> word_at (last_char (last_char (last_char (last_char None pre) ds) w) p)
                            \<noteq> word_at (next_char suf)))))"
    by (simp add: regexp_test_def inclusion_pattern_shape matches_from_iff matches_here_digits
          matches_here_literal matches_here_optional)
  also have "\<dots> \<longleftrightarrow>
     (\<exists>pre ds w suf. P = pre @ ds @ w @ suf \<and> list_all is_digit ds
        \<and> (same_letters w t \<or> same_letters w (t @ ''s''))
        \<and> boundary pre (ds @ w @ suf) \<and> boundary (pre @ ds @ w) suf)"
  proof
    assume "\<exists>pre r. P = pre @ r \<and> word_at (last_char None pre) \<noteq> word_at (next_char r)
         \<and> (\<exists>ds r2. r = ds @ r2 \<and> list_all is_digit ds
              \<and> (\<exists>w r3. r2 = w @ r3 \<and> same_letters w t
                   \<and> (\<exists>p suf. r3 = p @ suf \<and> (p = [] \<or> same_letters p ''s'')
                        \<and> word_at (last_char (last_char (last_char (last_char None pre) ds) w) p)
                            \<noteq> word_at (next_char suf))))"
    then obtain pre ds w p suf where
      P: "P = pre @ ds @ w @ p @ suf" and b1: "word_at (last_char None pre) \<noteq> word_at (next_char (ds @ w @ p @ suf))"
      and d: "list_all is_digit ds" and w: "same_letters w t" and p: "p = [] \<or> same_letters p ''s''"
      and b2: "word_at (last_char (last_char (last_char (last_char None pre) ds) w) p) \<noteq> word_at (next_char suf)"
      by blast
    from w p have "same_letters (w @ p) t \<or> same_letters (w @ p) (t @ ''s'')"
      by (auto intro: same_letters_append)
    moreover from P have "P = pre @ ds @ (w @ p) @ suf" by simp
    moreover from b1 have "boundary pre (ds @ (w @ p) @ suf)" by (simp add: boundary_def)
    moreover from b2 have "boundary (pre @ ds @ (w @ p)) suf"
      by (simp add: boundary_def last_char_append)
    ultimately show "\<exists>pre ds w suf. P = pre @ ds @ w @ suf \<and> list_all is_digit ds
        \<and> (same_letters w t \<or> same_letters w (t @ ''s''))
        \<and> boundary pre (ds @ w @ suf) \<and> boundary (pre @ ds @ w) suf"
      using d by blast
  next
    assume "\<exists>pre ds w suf. P = pre @ ds @ w @ suf \<and> list_all is_digit ds
        \<and> (same_letters w t \<or> same_letters w (t @ ''s''))
        \<and> boundary pre (ds @ w @ suf) \<and> boundary (pre @ ds @ w) suf"
    then obtain pre ds w suf where
      P: "P = pre @ ds @ w @ suf" and d: "list_all is_digit ds"
      and w: "same_letters w t \<or> same_letters w (t @ ''s'')"
      and b1: "boundary pre (ds @ w @ suf)" and b2: "boundary (pre @ ds @ w) suf"
      by blast
    from w obtain w1 p where wp: "w = w1 @ p" "same_letters w1 t" "p = [] \<or> same_letters p ''s''"
    proof
      assume "same_letters w t"
      then have "w = w @ [] \<and> same_letters w t \<and> ([] = [] \<or> same_letters [] ''s'')" by simp
      then show ?thesis using that by blast
    next
      assume "same_letters w (t @ ''s'')"
      from same_letters_split [OF this] show ?thesis using that by blast
    qed
    have "P = pre @ (ds @ w1 @ p @ suf)"
      using P wp by simp
    moreover have "word_at (last_char None pre) \<noteq> word_at (next_char (ds @ w1 @ p @ suf))"
      using b1 wp by (simp add: boundary_def)
    moreover have "word_at (last_char (last_char (last_char (last_char None pre) ds) w1) p)
                            \<noteq> word_at (next_char suf)"
      using b2 wp by (simp add: boundary_def last_char_append)
    ultimately show "\<exists>pre r. P = pre @ r \<and> word_at (last_char None pre) \<noteq> word_at (next_char r)
         \<and> (\<exists>ds r2. r = ds @ r2 \<and> list_all is_digit ds
              \<and> (\<exists>w r3. r2 = w @ r3 \<and> same_letters w t
                   \<and> (\<exists>p suf. r3 = p @ suf \<and> (p = [] \<or> same_letters p ''s'')
                        \<and> word_at (last_char (last_char (last_char (last_char None pre) ds) w) p)
                            \<noteq> word_at (next_char suf))))"
      using d wp by blast
  qed
  finally show ?thesis .
qed

lemma add_tokens_terms:
  "fst (add_tokens toks (terms, ex)) =
     terms @ map (\<lambda>tok. inclusion_regexp (strip_quotes tok))
               (filter (\<lambda>tok. \<not> is_operator (trim (toUpperCase tok))) toks)"
  by (induction toks arbitrary: terms ex) (auto simp: Let_def)

text \<open>
  C4. The source text of an include term is read as: word boundary, any number of
  digits, the characters of the term (each compared without regard to case), an optional
  \<open>s\<close>, word boundary. The source text of an exclude term is the same without the
  optional \<open>s\<close>. \<^verbatim>\<open>parseInclusions\<close> makes the first kind of every token that is not an
  operator, \<^verbatim>\<open>parseExclusions\<close> the second kind of every term of the list. So the
  include term \<open>cat\<close> matches \<open>cat\<close>, \<open>1cat\<close> and \<open>cats\<close> and not
  \<open>concatenate\<close>, and the exclude term \<open>cat\<close> matches \<open>cat\<close> and \<open>1cat\<close> and
  neither \<open>cats\<close> nor \<open>concatenate\<close>. In general an include pattern matches a
  prompt when the prompt is \<open>pre @ ds @ w @ suf\<close> with digits \<open>ds\<close>, \<open>w\<close> the term
  or the term and an \<open>s\<close> up to case, and word boundaries in front of \<open>ds\<close> and behind
  \<open>w\<close>; an exclude pattern when \<open>w\<close> is the term up to case.
\<close>

theorem include_exclude_pattern_shapes:
  "parse_pattern (source (inclusion_regexp t)) =
     Some ([WordBoundary, Star ADigit] @ map (\<lambda>c. One (AChar c)) t
            @ [Opt (AChar CHR ''s''), WordBoundary])
   \<and> parse_pattern (source (exclusion_regexp t)) =
     Some ([WordBoundary, Star ADigit] @ map (\<lambda>c. One (AChar c)) t @ [WordBoundary])
   \<and> (regexp_test (inclusion_regexp t) P \<longleftrightarrow>
        (\<exists>pre ds w suf. P = pre @ ds @ w @ suf \<and> list_all is_digit ds
           \<and> (same_letters w t \<or> same_letters w (t @ ''s''))
           \<and> boundary pre (ds @ w @ suf) \<and> boundary (pre @ ds @ w) suf))
   \<and> (regexp_test (exclusion_regexp t) P \<longleftrightarrow>
        (\<exists>pre ds w suf. P = pre @ ds @ w @ suf \<and> list_all is_digit ds \<and> same_letters w t
           \<and> boundary pre (ds @ w @ suf) \<and> boundary (pre @ ds @ w) suf))
   \<and> fst (add_tokens toks ([], [])) =
       map (\<lambda>tok. inclusion_regexp (strip_quotes tok))
         (filter (\<lambda>tok. \<not> is_operator (trim (toUpperCase tok))) toks)
   \<and> parseExclusions (Some str) =
       map exclusion_regexp
         (filter (\<lambda>t. t \<noteq> []) (map (\<lambda>t. strip_quotes (trim t)) (split_comma [] str)))
   \<and> fst (parseInclusions (Some ''cat'')) = [inclusion_regexp ''cat'']
   \<and> map (regexp_test (inclusion_regexp ''cat''))
        [''cat'', ''a 1cat'', ''two cats'', ''my CAT'', ''concatenate'']
       = [True, True, True, True, False]
   \<and> parseExclusions (Some ''cat'') = [exclusion_regexp ''cat'']
   \<and> map (regexp_test (exclusion_regexp ''cat''))
        [''cat'', ''a 1cat'', ''two cats'', ''my CAT'', ''concatenate'']
       = [True, True, False, True, False]"
proof -
  have excl: "parseExclusions (Some str) =
       map exclusion_regexp
         (filter (\<lambda>t. t \<noteq> []) (map (\<lambda>t. strip_quotes (trim t)) (split_comma [] str)))"
    by (cases str) (simp_all add: parseExclusions_def trim_def strip_quotes_def)
  have i1: "fst (parseInclusions (Some ''cat'')) = [inclusion_regexp ''cat'']"
    by code_simp
  have i2: "map (regexp_test (inclusion_regexp ''cat''))
        [''cat'', ''a 1cat'', ''two cats'', ''my CAT'', ''concatenate'']
       = [True, True, True, True, False]"
    by code_simp
  have e1: "parseExclusions (Some ''cat'') = [exclusion_regexp ''cat'']"
    by code_simp
  have e2: "map (regexp_test (exclusion_regexp ''cat''))
        [''cat'', ''a 1cat'', ''two cats'', ''my CAT'', ''concatenate'']
       = [True, True, False, True, False]"
    by code_simp
  show ?thesis
    using inclusion_pattern_shape [of t] exclusion_pattern_shape [of t]
      inclusion_regexp_matches_iff [of t P] exclusion_regexp_matches_iff [of t P]
      add_tokens_terms [of toks "[]" "[]"] excl i1 i2 e1 e2
    by (intro conjI) simp_all
qed

section \<open>The compiled predicate\<close>

lemma no_match_in_empty_prompt:
  "\<not> regexp_test (inclusion_regexp t) []" "\<not> regexp_test (exclusion_regexp t) []"
  by (simp_all add: regexp_test_def inclusion_pattern_shape exclusion_pattern_shape
        word_at_def next_char_def)

lemma trim_empty_iff: "trim s = [] \<longleftrightarrow> (\<forall>c \<in> set s. is_space c)"
proof
  assume "trim s = []"
  then have "dropWhile is_space (rev (dropWhile is_space s)) = []"
    by (simp add: trim_def)
  then have all: "\<forall>c \<in> set (dropWhile is_space s). is_space c"
    by simp
  have "dropWhile is_space s = []"
  proof (rule ccontr)
    assume ne: "dropWhile is_space s \<noteq> []"
    then have "\<not> is_space (hd (dropWhile is_space s))"
      by (rule hd_dropWhile)
    moreover from ne have "hd (dropWhile is_space s) \<in> set (dropWhile is_space s)"
      by simp
    ultimately show False using all by blast
  qed
  then show "\<forall>c \<in> set s. is_space c"
    by simp
next
  assume "\<forall>c \<in> set s. is_space c"
  then have e: "dropWhile is_space s = []"
    by simp
  show "trim s = []"
    unfolding trim_def e by simp
qed

text \<open>An include query that is absent, empty or made of white space only.\<close>

definition blank :: "string option \<Rightarrow> bool" where
  "blank q = (case q of None \<Rightarrow> True | Some s \<Rightarrow> \<forall>c \<in> set s. is_space c)"

lemma parseInclusions_blank: "blank q \<Longrightarrow> parseInclusions q = ([], [TrueLit])"
  by (auto simp: blank_def parseInclusions_def trim_empty_iff split: option.splits)

text \<open>
  C9. \<^verbatim>\<open>test\<close> of an absent prompt is \<^verbatim>\<open>test\<close> of the empty string, for every
  predicate; no include pattern and no exclude pattern matches the empty string; and a
  filter compiled from a blank include query and an exclusion list that holds no term
  (the absent and the empty list are such) is the predicate that returns \<open>true\<close> on
  every prompt.
\<close>

theorem absent_prompt_and_empty_filter:
  "test p None = test p (Some [])
   \<and> (\<forall>t. \<not> regexp_test (inclusion_regexp t) [] \<and> \<not> regexp_test (exclusion_regexp t) [])
   \<and> parseExclusions None = [] \<and> parseExclusions (Some []) = []
   \<and> (blank q \<and> parseExclusions ex = []
        \<longrightarrow> compile q ex = Some AlwaysTrue \<and> (\<forall>P. test AlwaysTrue P = Inr True))"
  by (simp add: test_def no_match_in_empty_prompt compile_def parseInclusions_blank
        parseExclusions_def)

theorem absent_prompt_and_empty_filter_witness:
  "blank (Some ''  '') \<and> parseExclusions (Some []) = []
   \<and> compile (Some ''  '') (Some []) = Some AlwaysTrue
   \<and> test AlwaysTrue (Some ''a dog at night'') = Inr True"
proof -
  have b: "blank (Some ''  '')"
    by (simp add: blank_def is_space_def)
  have e: "parseExclusions (Some []) = []"
    by (simp add: parseExclusions_def)
  from absent_prompt_and_empty_filter [of AlwaysTrue "Some ''  ''" "Some []"] b e
  show ?thesis by blast
qed

lemma excluded_iff: "excluded xs P \<longleftrightarrow> (\<exists>x \<in> set xs. regexp_test x P)"
  by (induction xs) auto

text \<open>
  C3. For every filter that \<^verbatim>\<open>compile\<close> returns and every prompt: if one of the
  exclusion patterns matches the prompt, \<^verbatim>\<open>test\<close> returns \<open>false\<close>, whatever the
  include query is. The exclusions are looked at in front of the expression: the
  result is \<open>false\<close> also where the expression would throw.
\<close>

theorem exclusion_wins:
  "compile q ex = Some p \<Longrightarrow> x \<in> set (parseExclusions ex) \<Longrightarrow> regexp_test x P
     \<Longrightarrow> test p (Some P) = Inr False"
proof -
  assume c: "compile q ex = Some p" and x: "x \<in> set (parseExclusions ex)"
    and m: "regexp_test x P"
  from x have ne: "parseExclusions ex \<noteq> []" by auto
  obtain terms expression where pi: "parseInclusions q = (terms, expression)"
    by (cases "parseInclusions q")
  from c ne pi obtain b where p: "p = Compiled terms (parseExclusions ex) b"
    by (auto simp: compile_def split: option.splits)
  from x m have "excluded (parseExclusions ex) P"
    by (auto simp: excluded_iff)
  then show ?thesis
    by (simp add: p test_def)
qed

text \<open>
  The include query \<open>cat (dog)\<close> is read as a call of a boolean, which throws on every
  prompt that gets as far as the expression; with the exclusion \<open>boy\<close> the prompt
  \<open>1boy and a cat\<close> is rejected before that.
\<close>

theorem exclusion_wins_witness:
  "compile (Some ''cat (dog)'') (Some ''boy'')
     = Some (Compiled [inclusion_regexp ''cat'', inclusion_regexp ''dog''] [exclusion_regexp ''boy'']
              (Return (JCall (JTest 0) (Some (JTest 1)))))
   \<and> exclusion_regexp ''boy'' \<in> set (parseExclusions (Some ''boy''))
   \<and> regexp_test (exclusion_regexp ''boy'') ''1boy and a cat''
   \<and> test (Compiled [inclusion_regexp ''cat'', inclusion_regexp ''dog''] [exclusion_regexp ''boy'']
              (Return (JCall (JTest 0) (Some (JTest 1))))) (Some ''1boy and a cat'') = Inr False
   \<and> test (Compiled [inclusion_regexp ''cat'', inclusion_regexp ''dog''] [exclusion_regexp ''boy'']
              (Return (JCall (JTest 0) (Some (JTest 1))))) (Some ''a cat'') = Inl TypeError"
proof -
  have c: "compile (Some ''cat (dog)'') (Some ''boy'')
     = Some (Compiled [inclusion_regexp ''cat'', inclusion_regexp ''dog''] [exclusion_regexp ''boy'']
              (Return (JCall (JTest 0) (Some (JTest 1)))))"
    by code_simp
  have x: "exclusion_regexp ''boy'' \<in> set (parseExclusions (Some ''boy''))"
    by code_simp
  have m: "regexp_test (exclusion_regexp ''boy'') ''1boy and a cat''"
    by code_simp
  have t: "test (Compiled [inclusion_regexp ''cat'', inclusion_regexp ''dog''] [exclusion_regexp ''boy'']
              (Return (JCall (JTest 0) (Some (JTest 1))))) (Some ''a cat'') = Inl TypeError"
    by code_simp
  from exclusion_wins [OF c x m] c x m t show ?thesis by blast
qed

section \<open>Operators of the include query\<close>

text \<open>
  The meaning the specification gives an include query: a tag holds on a prompt when its
  include pattern matches, and \<open>NOT\<close>, \<open>AND\<close>, \<open>OR\<close> are negation, conjunction
  and disjunction. \<open>cat OR dog AND night\<close> is then \<open>Or cat (And dog night)\<close>, and
  \<open>cat AND NOT dog\<close> is \<open>And cat (Not dog)\<close>.
\<close>

datatype query = Tag string | Not query | And query query | Or query query

fun spec_holds :: "query \<Rightarrow> string \<Rightarrow> bool" where
  "spec_holds (Tag t) P = regexp_test (inclusion_regexp t) P"
| "spec_holds (Not a) P = (\<not> spec_holds a P)"
| "spec_holds (And a b) P = (spec_holds a P \<and> spec_holds b P)"
| "spec_holds (Or a b) P = (spec_holds a P \<or> spec_holds b P)"

declare parse_or.simps [simp del] parse_or_rest.simps [simp del] parse_and.simps [simp del]
  parse_and_rest.simps [simp del] parse_unary.simps [simp del] parse_call_rest.simps [simp del]
  parse_primary.simps [simp del]

text \<open>
  An expression of \<open>!\<close>, \<open>&&\<close> and \<open>||\<close> written in tokens with the parentheses its
  precedence asks for and no others: an operand of \<open>&&\<close> that is an \<open>||\<close>, a right
  operand of the same operator, and the operand of \<open>!\<close> unless it is a term or a
  negation.
\<close>

definition wrap :: "bool \<Rightarrow> 'a \<Rightarrow> 'a \<Rightarrow> 'a list \<Rightarrow> 'a list" where
  "wrap b l r xs = (if b then l # xs @ [r] else xs)"

fun render :: "nat \<Rightarrow> jsexp \<Rightarrow> jtok list" where
  "render p (JTest i) = [TermTest i]"
| "render p JTrue = [TrueLit]"
| "render p (JNot a) = NotTok # render 2 a"
| "render p (JAnd a b) = wrap (1 < p) LParen RParen (render 1 a @ [AndTok] @ render 2 b)"
| "render p (JOr a b) = wrap (0 < p) LParen RParen (render 0 a @ [OrTok] @ render 1 b)"
| "render p (JCall f a) = []"

fun connective :: "jsexp \<Rightarrow> bool" where
  "connective (JTest i) = True"
| "connective JTrue = True"
| "connective (JNot a) = connective a"
| "connective (JAnd a b) = (connective a \<and> connective b)"
| "connective (JOr a b) = (connective a \<and> connective b)"
| "connective (JCall f a) = False"

lemma starts_with_simps [simp]:
  "starts_with t [] = False" "starts_with t (x # xs) = (x = t)"
  by (simp_all add: starts_with_def)

lemma parse_or_rest_end:
  "\<not> starts_with OrTok rest \<Longrightarrow> parse_or_rest e rest = Some (e, rest)"
  by (simp add: parse_or_rest.simps)

lemma parse_and_rest_end:
  "\<not> starts_with AndTok rest \<Longrightarrow> parse_and_rest e rest = Some (e, rest)"
  by (simp add: parse_and_rest.simps)

lemma parse_call_rest_end:
  "\<not> starts_with LParen rest \<Longrightarrow> parse_call_rest e rest = Some (e, rest)"
  by (simp add: parse_call_rest.simps)

lemma parse_parenthesized:
  assumes "parse_or (ts @ RParen # rest) = Some (e, RParen # rest)"
    and "\<not> starts_with LParen rest"
  shows "parse_unary (LParen # ts @ RParen # rest) = Some (e, rest)"
  using assms
  by (simp add: parse_unary.simps parse_primary.simps parse_call_rest_end)

text \<open>
  The grammar reads such a text back as the expression it was written from:
  \<open>!\<close> binds tighter than \<open>&&\<close>, \<open>&&\<close> tighter than \<open>||\<close>, and parentheses
  override both.
\<close>

lemma render_parses:
  "connective e \<Longrightarrow>
     (\<forall>rest. \<not> starts_with LParen rest \<longrightarrow> parse_unary (render 2 e @ rest) = Some (e, rest))
   \<and> (\<forall>rest. \<not> starts_with LParen rest \<longrightarrow> parse_and (render 1 e @ rest) = parse_and_rest e rest)
   \<and> (\<forall>rest. \<not> starts_with LParen rest \<and> \<not> starts_with AndTok rest \<longrightarrow>
         parse_or (render 0 e @ rest) = parse_or_rest e rest)"
proof (induction e)
  case JTrue
  have u: "parse_unary (TrueLit # rest) = Some (JTrue, rest)" if "\<not> starts_with LParen rest" for rest
    using that by (simp add: parse_unary.simps parse_primary.simps parse_call_rest_end)
  then show ?case
    by (simp add: parse_and.simps parse_or.simps parse_and_rest_end)
next
  case (JTest i)
  have u: "parse_unary (TermTest i # rest) = Some (JTest i, rest)" if "\<not> starts_with LParen rest" for rest
    using that by (simp add: parse_unary.simps parse_primary.simps parse_call_rest_end)
  then show ?case
    by (simp add: parse_and.simps parse_or.simps parse_and_rest_end)
next
  case (JNot a)
  then have a: "\<And>rest. \<not> starts_with LParen rest \<Longrightarrow> parse_unary (render 2 a @ rest) = Some (a, rest)"
    by simp
  have u: "parse_unary (NotTok # render 2 a @ rest) = Some (JNot a, rest)"
    if "\<not> starts_with LParen rest" for rest
    using that a by (simp add: parse_unary.simps [of "NotTok # _"])
  then show ?case
    by (simp add: parse_and.simps parse_or.simps parse_and_rest_end)
next
  case (JAnd a b)
  then have a: "\<And>rest. \<not> starts_with LParen rest \<Longrightarrow> parse_and (render 1 a @ rest) = parse_and_rest a rest"
    and b: "\<And>rest. \<not> starts_with LParen rest \<Longrightarrow> parse_unary (render 2 b @ rest) = Some (b, rest)"
    by simp_all
  have A: "parse_and (render 1 (JAnd a b) @ rest) = parse_and_rest (JAnd a b) rest"
    if "\<not> starts_with LParen rest" for rest
    using that a [of "AndTok # render 2 b @ rest"] b [of rest]
    by (simp add: wrap_def parse_and_rest.simps [of a])
  have O: "parse_or (render 0 (JAnd a b) @ rest) = parse_or_rest (JAnd a b) rest"
    if "\<not> starts_with LParen rest" "\<not> starts_with AndTok rest" for rest
    using that A [of rest] by (simp add: wrap_def parse_or.simps parse_and_rest_end)
  have U: "parse_unary (render 2 (JAnd a b) @ rest) = Some (JAnd a b, rest)"
    if "\<not> starts_with LParen rest" for rest
  proof -
    have "parse_or (render 0 (JAnd a b) @ RParen # rest) = Some (JAnd a b, RParen # rest)"
      using O [of "RParen # rest"] by (simp add: parse_or_rest_end)
    then show ?thesis
      using parse_parenthesized [of "render 0 (JAnd a b)" rest "JAnd a b"] that
      by (simp add: wrap_def)
  qed
  from A O U show ?case by blast
next
  case (JOr a b)
  then have a: "\<And>rest. \<not> starts_with LParen rest \<Longrightarrow> \<not> starts_with AndTok rest \<Longrightarrow>
        parse_or (render 0 a @ rest) = parse_or_rest a rest"
    and b: "\<And>rest. \<not> starts_with LParen rest \<Longrightarrow> parse_and (render 1 b @ rest) = parse_and_rest b rest"
    by simp_all
  have O: "parse_or (render 0 (JOr a b) @ rest) = parse_or_rest (JOr a b) rest"
    if "\<not> starts_with LParen rest" "\<not> starts_with AndTok rest" for rest
    using that a [of "OrTok # render 1 b @ rest"] b [of rest]
    by (simp add: wrap_def parse_or_rest.simps [of a] parse_and_rest_end)
  have U: "parse_unary (render 2 (JOr a b) @ rest) = Some (JOr a b, rest)"
    if "\<not> starts_with LParen rest" for rest
  proof -
    have "parse_or (render 0 (JOr a b) @ RParen # rest) = Some (JOr a b, RParen # rest)"
      using O [of "RParen # rest"] by (simp add: parse_or_rest_end)
    then show ?thesis
      using parse_parenthesized [of "render 0 (JOr a b)" rest "JOr a b"] that
      by (simp add: wrap_def)
  qed
  have A: "parse_and (render 1 (JOr a b) @ rest) = parse_and_rest (JOr a b) rest"
    if "\<not> starts_with LParen rest" for rest
  proof -
    have "render 1 (JOr a b) = render 2 (JOr a b)"
      by (simp add: wrap_def)
    then show ?thesis
      using U [OF that] by (simp add: parse_and.simps)
  qed
  from A O U show ?case by blast
next
  case (JCall f a)
  then show ?case by simp
qed

lemma render_not_empty: "connective e \<Longrightarrow> render p e \<noteq> []"
  by (cases e) (auto simp: wrap_def)

lemma parse_body_render: "connective e \<Longrightarrow> parse_body (render 0 e) = Some (Return e)"
proof -
  assume c: "connective e"
  from render_parses [OF c]
  have "\<not> starts_with LParen [] \<and> \<not> starts_with AndTok [] \<longrightarrow>
          parse_or (render 0 e @ []) = parse_or_rest e []"
    by blast
  then have "parse_or (render 0 e) = Some (e, [])"
    by (simp add: parse_or_rest_end)
  with render_not_empty [OF c, of 0] show ?thesis
    by (simp add: parse_body_def)
qed

text \<open>
  A query of the specification written as the tokens of \<^verbatim>\<open>parseInclusions\<close>, with
  the same parentheses; its tags in their order, and its expression over the indices of
  the tags. A plain tag is one that is not an operator word and has no quote to strip.
\<close>

fun tags :: "query \<Rightarrow> string list" where
  "tags (Tag t) = [t]"
| "tags (Not a) = tags a"
| "tags (And a b) = tags a @ tags b"
| "tags (Or a b) = tags a @ tags b"

fun numbered :: "nat \<Rightarrow> query \<Rightarrow> jsexp" where
  "numbered n (Tag t) = JTest n"
| "numbered n (Not a) = JNot (numbered n a)"
| "numbered n (And a b) = JAnd (numbered n a) (numbered (n + length (tags a)) b)"
| "numbered n (Or a b) = JOr (numbered n a) (numbered (n + length (tags a)) b)"

fun written :: "nat \<Rightarrow> query \<Rightarrow> string list" where
  "written p (Tag t) = [t]"
| "written p (Not a) = ''NOT'' # written 2 a"
| "written p (And a b) = wrap (1 < p) ''('' '')'' (written 1 a @ [''AND''] @ written 2 b)"
| "written p (Or a b) = wrap (0 < p) ''('' '')'' (written 0 a @ [''OR''] @ written 1 b)"

definition plain_tag :: "string \<Rightarrow> bool" where
  "plain_tag t = (\<not> is_operator (trim (toUpperCase t)) \<and> strip_quotes t = t)"

lemma connective_numbered: "connective (numbered n q)"
  by (induction q arbitrary: n) auto

lemma add_tokens_append:
  "add_tokens (xs @ ys) acc = add_tokens ys (add_tokens xs acc)"
  by (induction xs arbitrary: acc) (auto simp: Let_def split: prod.splits)

lemma operator_words:
  "trim (toUpperCase ''AND'') = ''AND''" "trim (toUpperCase ''OR'') = ''OR''"
  "trim (toUpperCase ''NOT'') = ''NOT''" "trim (toUpperCase ''('') = ''(''"
  "trim (toUpperCase '')'') = '')''"
  by code_simp+

lemma add_tokens_operator:
  "add_tokens (''AND'' # rest) (terms, ex) = add_tokens rest (terms, ex @ [AndTok])"
  "add_tokens (''OR'' # rest) (terms, ex) = add_tokens rest (terms, ex @ [OrTok])"
  "add_tokens (''NOT'' # rest) (terms, ex) = add_tokens rest (terms, ex @ [NotTok])"
  "add_tokens (''('' # rest) (terms, ex) = add_tokens rest (terms, ex @ [LParen])"
  "add_tokens ('')'' # rest) (terms, ex) = add_tokens rest (terms, ex @ [RParen])"
  by (simp_all add: operator_words is_operator_def mapOperator_def)

lemma add_tokens_written:
  "list_all plain_tag (tags q) \<Longrightarrow>
   add_tokens (written p q @ rest) (terms, ex) =
     add_tokens rest
       (terms @ map inclusion_regexp (tags q), ex @ render p (numbered (length terms) q))"
proof (induction q arbitrary: p terms ex rest)
  case (Tag t)
  then show ?case by (simp add: plain_tag_def Let_def)
next
  case (Not q)
  then show ?case
    by (simp add: add_tokens_operator del: add_tokens.simps)
next
  case (And a b)
  then have a: "\<And>p terms ex rest. add_tokens (written p a @ rest) (terms, ex) =
     add_tokens rest
       (terms @ map inclusion_regexp (tags a), ex @ render p (numbered (length terms) a))"
    and b: "\<And>p terms ex rest. add_tokens (written p b @ rest) (terms, ex) =
     add_tokens rest
       (terms @ map inclusion_regexp (tags b), ex @ render p (numbered (length terms) b))"
    by simp_all
  show ?case
  proof (cases "1 < p")
    case True
    then show ?thesis
      using a [of 1 "''AND'' # written 2 b @ '')'' # rest"] b [of 2 "'')'' # rest"]
      by (simp add: wrap_def add_tokens_operator del: add_tokens.simps)
  next
    case False
    then show ?thesis
      using a [of 1 "''AND'' # written 2 b @ rest"] b [of 2 rest]
      by (simp add: wrap_def add_tokens_operator del: add_tokens.simps)
  qed
next
  case (Or a b)
  then have a: "\<And>p terms ex rest. add_tokens (written p a @ rest) (terms, ex) =
     add_tokens rest
       (terms @ map inclusion_regexp (tags a), ex @ render p (numbered (length terms) a))"
    and b: "\<And>p terms ex rest. add_tokens (written p b @ rest) (terms, ex) =
     add_tokens rest
       (terms @ map inclusion_regexp (tags b), ex @ render p (numbered (length terms) b))"
    by simp_all
  show ?case
  proof (cases "0 < p")
    case True
    then show ?thesis
      using a [of 0 "''OR'' # written 1 b @ '')'' # rest"] b [of 1 "'')'' # rest"]
      by (simp add: wrap_def add_tokens_operator del: add_tokens.simps)
  next
    case False
    then show ?thesis
      using a [of 0 "''OR'' # written 1 b @ rest"] b [of 1 rest]
      by (simp add: wrap_def add_tokens_operator del: add_tokens.simps)
  qed
qed

lemma eval_numbered:
  "eval (before @ map inclusion_regexp (tags q) @ behind) P (numbered (length before) q)
     = Inr (spec_holds q P)"
proof (induction q arbitrary: before behind)
  case (Tag t)
  show ?case by (simp add: nth_append)
next
  case (Not q)
  then show ?case by simp
next
  case (And a b)
  have "eval (before @ map inclusion_regexp (tags a) @ map inclusion_regexp (tags b) @ behind) P
          (numbered (length before) a) = Inr (spec_holds a P)"
    using And.IH(1) [of before "map inclusion_regexp (tags b) @ behind"] by simp
  moreover have "eval (before @ map inclusion_regexp (tags a) @ map inclusion_regexp (tags b) @ behind) P
          (numbered (length before + length (tags a)) b) = Inr (spec_holds b P)"
    using And.IH(2) [of "before @ map inclusion_regexp (tags a)" behind] by simp
  ultimately show ?case by simp
next
  case (Or a b)
  have "eval (before @ map inclusion_regexp (tags a) @ map inclusion_regexp (tags b) @ behind) P
          (numbered (length before) a) = Inr (spec_holds a P)"
    using Or.IH(1) [of before "map inclusion_regexp (tags b) @ behind"] by simp
  moreover have "eval (before @ map inclusion_regexp (tags a) @ map inclusion_regexp (tags b) @ behind) P
          (numbered (length before + length (tags a)) b) = Inr (spec_holds b P)"
    using Or.IH(2) [of "before @ map inclusion_regexp (tags a)" behind] by simp
  ultimately show ?case by simp
qed

lemma tags_not_empty: "tags q \<noteq> []"
  by (induction q) auto

text \<open>
  From the tokens on, the code does what the specification says: when the query is
  written with its operators as tokens of their own, the function that is compiled holds
  on a prompt exactly when the query does.
\<close>

lemma written_query_follows_precedence:
  assumes "list_all plain_tag (tags q)"
  shows "\<exists>terms e. add_tokens (written 0 q) ([], []) = (terms, render 0 e)
           \<and> parse_body (render 0 e) = Some (Return e)
           \<and> (\<forall>P. run_predicate (Compiled terms [] (Return e)) P = Inr (spec_holds q P))"
proof -
  have a: "add_tokens (written 0 q) ([], []) = (map inclusion_regexp (tags q), render 0 (numbered 0 q))"
    using add_tokens_written [OF assms, of 0 "[]" "[]" "[]"] by simp
  have b: "parse_body (render 0 (numbered 0 q)) = Some (Return (numbered 0 q))"
    by (rule parse_body_render) (rule connective_numbered)
  have c: "run_predicate (Compiled (map inclusion_regexp (tags q)) [] (Return (numbered 0 q))) P
      = Inr (spec_holds q P)" for P
    using eval_numbered [of "[]" q "[]" P] by simp
  from a b c show ?thesis by blast
qed

text \<open>
  The example of the claim C1 holds: both queries compile to the same function, which is
  \<open>cat\<close> or (\<open>dog\<close> and \<open>night\<close>) on every prompt.
\<close>

lemma precedence_cat_or_dog_and_night:
  "compile (Some ''cat OR dog AND night'') None = compile (Some ''cat OR (dog AND night)'') None
   \<and> compile (Some ''cat OR dog AND night'') None =
       Some (Compiled [inclusion_regexp ''cat'', inclusion_regexp ''dog'', inclusion_regexp ''night'']
              [] (Return (JOr (JTest 0) (JAnd (JTest 1) (JTest 2)))))
   \<and> (\<forall>P. test (Compiled [inclusion_regexp ''cat'', inclusion_regexp ''dog'', inclusion_regexp ''night'']
              [] (Return (JOr (JTest 0) (JAnd (JTest 1) (JTest 2))))) (Some P)
          = Inr (spec_holds (Or (Tag ''cat'') (And (Tag ''dog'') (Tag ''night''))) P))
   \<and> spec_holds (Or (Tag ''cat'') (And (Tag ''dog'') (Tag ''night''))) ''a cat at day''
   \<and> \<not> spec_holds (Or (Tag ''cat'') (And (Tag ''dog'') (Tag ''night''))) ''a dog at day''
   \<and> spec_holds (Or (Tag ''cat'') (And (Tag ''dog'') (Tag ''night''))) ''a dog at night''"
proof -
  have a: "compile (Some ''cat OR dog AND night'') None =
       Some (Compiled [inclusion_regexp ''cat'', inclusion_regexp ''dog'', inclusion_regexp ''night'']
              [] (Return (JOr (JTest 0) (JAnd (JTest 1) (JTest 2)))))"
    by code_simp
  have b: "compile (Some ''cat OR (dog AND night)'') None =
       Some (Compiled [inclusion_regexp ''cat'', inclusion_regexp ''dog'', inclusion_regexp ''night'']
              [] (Return (JOr (JTest 0) (JAnd (JTest 1) (JTest 2)))))"
    by code_simp
  have c: "test (Compiled [inclusion_regexp ''cat'', inclusion_regexp ''dog'', inclusion_regexp ''night'']
              [] (Return (JOr (JTest 0) (JAnd (JTest 1) (JTest 2))))) (Some P)
          = Inr (spec_holds (Or (Tag ''cat'') (And (Tag ''dog'') (Tag ''night''))) P)" for P
    by (simp add: test_def)
  have d: "spec_holds (Or (Tag ''cat'') (And (Tag ''dog'') (Tag ''night''))) ''a cat at day''"
    by code_simp
  have e: "\<not> spec_holds (Or (Tag ''cat'') (And (Tag ''dog'') (Tag ''night''))) ''a dog at day''"
    by code_simp
  have f: "spec_holds (Or (Tag ''cat'') (And (Tag ''dog'') (Tag ''night''))) ''a dog at night''"
    by code_simp
  show ?thesis
    using c d e f by (simp only: a b) blast
qed

text \<open>
  C1 (the code departs from the claim). In \<open>cat AND NOT dog\<close> the separator
  \<^verbatim>\<open>\s+AND\s+\<close> takes the white space in front of \<open>NOT\<close>, the separator cannot
  match at \<open>NOT\<close> any more, and \<open>NOT dog\<close> becomes one literal term: the compiled
  function is \<open>Terms[0] && Terms[1]\<close>. On the prompt \<open>a cat\<close> it returns
  \<open>false\<close>, where \<open>cat\<close> and not \<open>dog\<close> holds; on \<open>cat not dog\<close> it returns
  \<open>true\<close>, where \<open>cat\<close> and not \<open>dog\<close> does not hold. The query \<open>NOT 3d\<close> of
  the README is one literal term in the same way and is \<open>false\<close> on \<open>a cat\<close>, a
  prompt without \<open>3d\<close>.
\<close>

theorem not_behind_and_is_read_as_a_phrase:
  "tokens ''cat AND NOT dog'' = [''cat'', ''AND'', ''NOT dog'']
   \<and> compile (Some ''cat AND NOT dog'') None =
       Some (Compiled [inclusion_regexp ''cat'', inclusion_regexp ''NOT dog''] []
              (Return (JAnd (JTest 0) (JTest 1))))
   \<and> test (Compiled [inclusion_regexp ''cat'', inclusion_regexp ''NOT dog''] []
              (Return (JAnd (JTest 0) (JTest 1)))) (Some ''a cat'') = Inr False
   \<and> spec_holds (And (Tag ''cat'') (Not (Tag ''dog''))) ''a cat''
   \<and> test (Compiled [inclusion_regexp ''cat'', inclusion_regexp ''NOT dog''] []
              (Return (JAnd (JTest 0) (JTest 1)))) (Some ''cat not dog'') = Inr True
   \<and> \<not> spec_holds (And (Tag ''cat'') (Not (Tag ''dog''))) ''cat not dog''
   \<and> compile (Some ''NOT 3d'') None =
       Some (Compiled [inclusion_regexp ''NOT 3d''] [] (Return (JTest 0)))
   \<and> test (Compiled [inclusion_regexp ''NOT 3d''] [] (Return (JTest 0))) (Some ''a cat'') = Inr False
   \<and> spec_holds (Not (Tag ''3d'')) ''a cat''"
proof -
  have a: "tokens ''cat AND NOT dog'' = [''cat'', ''AND'', ''NOT dog'']"
    by code_simp
  have b: "compile (Some ''cat AND NOT dog'') None =
       Some (Compiled [inclusion_regexp ''cat'', inclusion_regexp ''NOT dog''] []
              (Return (JAnd (JTest 0) (JTest 1))))"
    by code_simp
  have c: "test (Compiled [inclusion_regexp ''cat'', inclusion_regexp ''NOT dog''] []
              (Return (JAnd (JTest 0) (JTest 1)))) (Some ''a cat'') = Inr False"
    by code_simp
  have d: "spec_holds (And (Tag ''cat'') (Not (Tag ''dog''))) ''a cat''"
    by code_simp
  have e: "test (Compiled [inclusion_regexp ''cat'', inclusion_regexp ''NOT dog''] []
              (Return (JAnd (JTest 0) (JTest 1)))) (Some ''cat not dog'') = Inr True"
    by code_simp
  have f: "\<not> spec_holds (And (Tag ''cat'') (Not (Tag ''dog''))) ''cat not dog''"
    by code_simp
  have g: "compile (Some ''NOT 3d'') None =
       Some (Compiled [inclusion_regexp ''NOT 3d''] [] (Return (JTest 0)))"
    by code_simp
  have h: "test (Compiled [inclusion_regexp ''NOT 3d''] [] (Return (JTest 0))) (Some ''a cat'') = Inr False"
    by code_simp
  have i: "spec_holds (Not (Tag ''3d'')) ''a cat''"
    by code_simp
  from a b c d e f g h i show ?thesis by blast
qed

lemma keyword_at_split:
  "keyword_at s = Some (kw, r) \<Longrightarrow> s = kw @ r \<and> toUpperCase kw \<in> {''AND'', ''OR'', ''NOT''}"
  by (auto simp: keyword_at_def toUpperCase_def take_map [symmetric] split: if_splits)

text \<open>
  C10, as the claim states it, fails on \<open>NOT(3d)\<close>: the keyword has white space on
  neither side and is the first token of the query, yet it is the piece in front of the
  separator \<open>(\<close>, a token of its own, and \<^verbatim>\<open>parseInclusions\<close> maps it to the
  operator. The query is not one literal term, and the predicate negates: it accepts
  \<open>a cat\<close> and rejects \<open>a 3d render\<close>.
\<close>

theorem keyword_before_parenthesis_counterexample:
  "tokens ''NOT(3d)'' = [''NOT'', ''('', ''3d'', '')'']
   \<and> parseInclusions (Some ''NOT(3d)'') = ([inclusion_regexp ''3d''], [NotTok, LParen, TermTest 0, RParen])
   \<and> parseInclusions (Some ''NOT(3d)'') \<noteq> ([inclusion_regexp ''NOT(3d)''], [TermTest 0])
   \<and> compile (Some ''NOT(3d)'') None = Some (Compiled [inclusion_regexp ''3d''] [] (Return (JNot (JTest 0))))
   \<and> test (Compiled [inclusion_regexp ''3d''] [] (Return (JNot (JTest 0)))) (Some ''a cat'') = Inr True
   \<and> test (Compiled [inclusion_regexp ''3d''] [] (Return (JNot (JTest 0)))) (Some ''a 3d render'') = Inr False"
proof -
  have a: "tokens ''NOT(3d)'' = [''NOT'', ''('', ''3d'', '')'']"
    by code_simp
  have b: "parseInclusions (Some ''NOT(3d)'') = ([inclusion_regexp ''3d''], [NotTok, LParen, TermTest 0, RParen])"
    by code_simp
  have c: "compile (Some ''NOT(3d)'') None = Some (Compiled [inclusion_regexp ''3d''] [] (Return (JNot (JTest 0))))"
    by code_simp
  have d: "test (Compiled [inclusion_regexp ''3d''] [] (Return (JNot (JTest 0)))) (Some ''a cat'') = Inr True"
    by code_simp
  have e: "test (Compiled [inclusion_regexp ''3d''] [] (Return (JNot (JTest 0)))) (Some ''a 3d render'') = Inr False"
    by code_simp
  from a b c d e show ?thesis by simp
qed

text \<open>
  C10, amended. The separator matches a keyword only with white space on both sides of
  it (a piece between two separators that is a keyword by itself is an operator all
  the same, as above). In the query \<open>NOT 3d\<close> no separator matches: the query is one
  token and one literal term, the compiled function is \<open>Terms[0]\<close>, and on every
  prompt it returns what the include pattern of the phrase \<open>NOT 3d\<close> returns, that is
  whether the prompt holds the phrase (or the phrase and an \<open>s\<close>) up to case, behind
  digits or not, between word boundaries: \<open>true\<close> on \<open>not 3d\<close>, \<open>false\<close> on
  \<open>a cat\<close>, which a negation of \<open>3d\<close> would accept.
\<close>

theorem not_3d_is_one_literal_term:
  "(match_separator s = Some (Some kw, g2, r) \<longrightarrow>
      (\<exists>ws1 ws2. ws1 \<noteq> [] \<and> ws2 \<noteq> [] \<and> (\<forall>c \<in> set (ws1 @ ws2). is_space c)
           \<and> s = ws1 @ kw @ ws2 @ r \<and> toUpperCase kw \<in> {''AND'', ''OR'', ''NOT''}))
   \<and> split_query [] ''NOT 3d'' = [Some ''NOT 3d'']
   \<and> parseInclusions (Some ''NOT 3d'') = ([inclusion_regexp ''NOT 3d''], [TermTest 0])
   \<and> compile (Some ''NOT 3d'') None = Some (Compiled [inclusion_regexp ''NOT 3d''] [] (Return (JTest 0)))
   \<and> (\<forall>P. test (Compiled [inclusion_regexp ''NOT 3d''] [] (Return (JTest 0))) (Some P)
            = Inr (regexp_test (inclusion_regexp ''NOT 3d'') P))
   \<and> (\<forall>P. regexp_test (inclusion_regexp ''NOT 3d'') P \<longleftrightarrow>
        (\<exists>pre ds w suf. P = pre @ ds @ w @ suf \<and> list_all is_digit ds
           \<and> (same_letters w ''NOT 3d'' \<or> same_letters w ''NOT 3ds'')
           \<and> boundary pre (ds @ w @ suf) \<and> boundary (pre @ ds @ w) suf))
   \<and> regexp_test (inclusion_regexp ''NOT 3d'') ''not 3d''
   \<and> \<not> regexp_test (inclusion_regexp ''NOT 3d'') ''a cat''
   \<and> \<not> regexp_test (inclusion_regexp ''NOT 3d'') ''a 3d render''"
proof -
  have sep: "\<exists>ws1 ws2. ws1 \<noteq> [] \<and> ws2 \<noteq> [] \<and> (\<forall>c \<in> set (ws1 @ ws2). is_space c)
           \<and> s = ws1 @ kw @ ws2 @ r \<and> toUpperCase kw \<in> {''AND'', ''OR'', ''NOT''}"
    if m: "match_separator s = Some (Some kw, g2, r)"
  proof -
    from m have mk: "match_keyword s = Some (kw, r)"
      by (auto simp: match_separator_def split: option.splits)
    then obtain r1 where ws1: "takeWhile is_space s \<noteq> []"
      and k: "keyword_at (dropWhile is_space s) = Some (kw, r1)"
      and ws2: "takeWhile is_space r1 \<noteq> []"
      and r: "r = dropWhile is_space r1"
      by (auto simp: match_keyword_def split: if_splits option.splits)
    from keyword_at_split [OF k]
    have d: "dropWhile is_space s = kw @ r1" and u: "toUpperCase kw \<in> {''AND'', ''OR'', ''NOT''}"
      by simp_all
    have "s = takeWhile is_space s @ dropWhile is_space s"
      by simp
    also have "\<dots> = takeWhile is_space s @ kw @ takeWhile is_space r1 @ r"
      by (simp add: d r)
    finally have s: "s = takeWhile is_space s @ kw @ takeWhile is_space r1 @ r" .
    have sp: "\<forall>c \<in> set (takeWhile is_space s @ takeWhile is_space r1). is_space c"
      by (auto dest: set_takeWhileD)
    from ws1 ws2 sp s u show ?thesis by blast
  qed
  have a: "split_query [] ''NOT 3d'' = [Some ''NOT 3d'']"
    by code_simp
  have b: "parseInclusions (Some ''NOT 3d'') = ([inclusion_regexp ''NOT 3d''], [TermTest 0])"
    by code_simp
  have c: "compile (Some ''NOT 3d'') None = Some (Compiled [inclusion_regexp ''NOT 3d''] [] (Return (JTest 0)))"
    by code_simp
  have d: "test (Compiled [inclusion_regexp ''NOT 3d''] [] (Return (JTest 0))) (Some P)
            = Inr (regexp_test (inclusion_regexp ''NOT 3d'') P)" for P
    by (simp add: test_def)
  have e: "regexp_test (inclusion_regexp ''NOT 3d'') ''not 3d''"
    by code_simp
  have f: "\<not> regexp_test (inclusion_regexp ''NOT 3d'') ''a cat''"
    by code_simp
  have g: "\<not> regexp_test (inclusion_regexp ''NOT 3d'') ''a 3d render''"
    by code_simp
  have h: "regexp_test (inclusion_regexp ''NOT 3d'') P \<longleftrightarrow>
        (\<exists>pre ds w suf. P = pre @ ds @ w @ suf \<and> list_all is_digit ds
           \<and> (same_letters w ''NOT 3d'' \<or> same_letters w ''NOT 3ds'')
           \<and> boundary pre (ds @ w @ suf) \<and> boundary (pre @ ds @ w) suf)" for P
    using inclusion_regexp_matches_iff [of "''NOT 3d''" P] by simp
  from sep a b c d e f g h show ?thesis by blast
qed

theorem not_3d_is_one_literal_term_witness:
  "match_separator '' AND b'' = Some (Some ''AND'', None, ''b'')
   \<and> (\<exists>ws1 ws2. ws1 \<noteq> [] \<and> ws2 \<noteq> [] \<and> (\<forall>c \<in> set (ws1 @ ws2). is_space c)
           \<and> '' AND b'' = ws1 @ ''AND'' @ ws2 @ ''b'')"
proof -
  have m: "match_separator '' AND b'' = Some (Some ''AND'', None, ''b'')"
    by code_simp
  from not_3d_is_one_literal_term [of "'' AND b''" "''AND''" None "''b''"] m
  show ?thesis by blast
qed

section \<open>The scan and the match limit\<close>

declare online_loop.simps [simp del]

definition balanced :: "state \<Rightarrow> bool" where
  "balanced st = (downloaded st + skipped st = matches st \<and> int (length (queue st)) = downloaded st)"

definition scan_item :: "item \<Rightarrow> state \<Rightarrow> state" where
  "scan_item it st = emit (Scan (item_id it)) (updateScanStats st)"

definition skip_item :: "state \<Rightarrow> state" where
  "skip_item st = st\<lparr>matches := matches st + 1, skipped := skipped st + 1\<rparr>"

definition download_item :: "item \<Rightarrow> state \<Rightarrow> state" where
  "download_item it st = enqueueDownload it (st\<lparr>matches := matches st + 1\<rparr>)"

lemma processBatch_Cons:
  "processBatch cfg flt (it # its) st =
     (if isLimitReached cfg st then (None, st)
      else (case test flt (prompt it) of
              Inl e \<Rightarrow> (Some e, scan_item it st)
            | Inr ok \<Rightarrow>
                if \<not> ok then processBatch cfg flt its (scan_item it st)
                else if hasFile (store st) (item_id it)
                then processBatch cfg flt its (skip_item (scan_item it st))
                else processBatch cfg flt its (download_item it (scan_item it st))))"
  by (simp add: Let_def scan_item_def skip_item_def download_item_def emit_def updateScanStats_def
        split: sum.splits)

lemma isLimitReached_scan_item [simp]:
  "isLimitReached cfg (scan_item it st) = isLimitReached cfg st"
  by (simp add: isLimitReached_def scan_item_def emit_def updateScanStats_def)

lemma processBatch_limit_reached:
  "isLimitReached cfg st \<Longrightarrow> processBatch cfg flt its st = (None, st)"
  by (cases its) auto

lemma online_loop_limit_reached:
  "isLimitReached cfg st \<Longrightarrow> online_loop n cfg flt server u st = Some (None, st)"
  by (simp add: online_loop.simps)

lemma processBatch_append:
  "processBatch cfg flt (xs @ ys) st =
     (case processBatch cfg flt xs st of
        (None, st') \<Rightarrow> processBatch cfg flt ys st'
      | (Some e, st') \<Rightarrow> (Some e, st'))"
proof (induction xs arbitrary: st)
  case Nil
  show ?case by simp
next
  case (Cons x xs)
  show ?case
    unfolding append_Cons processBatch_Cons
    by (simp add: Cons.IH processBatch_limit_reached split: sum.splits)
qed

text \<open>What every step of the scan keeps, the scan of a batch keeps.\<close>

lemma processBatch_invariant:
  assumes "I st"
    and "\<And>s it. I s \<Longrightarrow> \<not> isLimitReached cfg s \<Longrightarrow> I (scan_item it s)"
    and "\<And>s. I s \<Longrightarrow> \<not> isLimitReached cfg s \<Longrightarrow> I (skip_item s)"
    and "\<And>s it. I s \<Longrightarrow> \<not> isLimitReached cfg s \<Longrightarrow> I (download_item it s)"
  shows "I (snd (processBatch cfg flt its st))"
  using assms(1)
proof (induction its arbitrary: st)
  case Nil
  then show ?case by simp
next
  case (Cons x xs)
  show ?case
  proof (cases "isLimitReached cfg st")
    case True
    with Cons.prems show ?thesis by (simp add: processBatch_Cons)
  next
    case False
    have s1: "I (scan_item x st)"
      using Cons.prems False by (rule assms(2))
    have n1: "\<not> isLimitReached cfg (scan_item x st)"
      using False by simp
    have s2: "I (skip_item (scan_item x st))"
      using s1 n1 by (rule assms(3))
    have s3: "I (download_item x (scan_item x st))"
      using s1 n1 by (rule assms(4))
    show ?thesis
      unfolding processBatch_Cons
      using False s1 Cons.IH [OF s1] Cons.IH [OF s2] Cons.IH [OF s3]
      by (simp split: sum.splits)
  qed
qed

lemma processBatch_balanced:
  "balanced st \<Longrightarrow> balanced (snd (processBatch cfg flt its st))"
  by (rule processBatch_invariant)
     (auto simp: balanced_def scan_item_def skip_item_def download_item_def emit_def
        updateScanStats_def enqueueDownload_def)

definition under_limit :: "config \<Rightarrow> state \<Rightarrow> bool" where
  "under_limit cfg st = (matches st \<le> max 0 (limit cfg))"

lemma processBatch_under_limit:
  "under_limit cfg st \<Longrightarrow> under_limit cfg (snd (processBatch cfg flt its st))"
  by (rule processBatch_invariant)
     (auto simp: under_limit_def isLimitReached_def scan_item_def skip_item_def download_item_def
        emit_def updateScanStats_def enqueueDownload_def)

text \<open>
  A rule for the loop: \<open>I\<close> holds at the head of every round, \<open>J\<close> of the way the loop
  ends and the state it ends in.
\<close>

lemma online_loop_rule:
  assumes start: "I st"
    and loop: "online_loop n cfg flt server u st = Some (r, st')"
    and round: "\<And>s v pg s3. I s \<Longrightarrow> \<not> isLimitReached cfg s \<Longrightarrow> server v = Data pg
        \<Longrightarrow> processBatch cfg flt (items pg) (cache_upsertBatch (items pg) (emit (Fetch v) s)) = (None, s3)
        \<Longrightarrow> I (cache_save s3)"
    and exit: "\<And>s. I s \<Longrightarrow> J None s"
    and fail: "\<And>s v status. I s \<Longrightarrow> \<not> isLimitReached cfg s \<Longrightarrow> server v = HttpError status
        \<Longrightarrow> J None (cache_save (emit (Print (classify status)) (emit (Fetch v) s)))"
    and empty: "\<And>s v. I s \<Longrightarrow> J None (emit (Print UserHasNoImages) (emit (Fetch v) s))"
    and throw: "\<And>s v pg e s3. I s \<Longrightarrow> \<not> isLimitReached cfg s \<Longrightarrow> server v = Data pg
        \<Longrightarrow> processBatch cfg flt (items pg) (cache_upsertBatch (items pg) (emit (Fetch v) s)) = (Some e, s3)
        \<Longrightarrow> J (Some e) s3"
  shows "J r st'"
  using start loop
proof (induction n arbitrary: u st)
  case 0
  then show ?case
    by (auto simp: online_loop.simps intro: exit split: if_splits)
next
  case (Suc n)
  show ?case
  proof (cases "truthy u \<and> \<not> isLimitReached cfg st")
    case False
    with Suc.prems show ?thesis
      by (auto simp: online_loop.simps intro: exit)
  next
    case go: True
    then have nl: "\<not> isLimitReached cfg st" by simp
    show ?thesis
    proof (cases "server (the u)")
      case (HttpError status)
      with Suc.prems(2) go have "r = None"
        and "st' = cache_save (emit (Print (classify status)) (emit (Fetch (the u)) st))"
        by (simp_all add: online_loop.simps [of "Suc n"] fetchPage_def Let_def)
      then show ?thesis
        using fail [OF Suc.prems(1) nl HttpError] by simp
    next
      case (Data pg)
      show ?thesis
      proof (cases "isUserEmpty (items pg) (emit (Fetch (the u)) st)")
        case True
        with Suc.prems(2) go Data have "r = None"
          and "st' = emit (Print UserHasNoImages) (emit (Fetch (the u)) st)"
          by (simp_all add: online_loop.simps [of "Suc n"] fetchPage_def Let_def)
        then show ?thesis
          using empty [OF Suc.prems(1)] by simp
      next
        case False
        obtain x s3 where p: "processBatch cfg flt (items pg)
            (cache_upsertBatch (items pg) (emit (Fetch (the u)) st)) = (x, s3)"
          by (cases "processBatch cfg flt (items pg)
            (cache_upsertBatch (items pg) (emit (Fetch (the u)) st))")
        show ?thesis
        proof (cases x)
          case None
          have i4: "I (cache_save s3)"
            using round [OF Suc.prems(1) nl Data] p None by simp
          from Suc.prems(2) go Data False p None
          have "online_loop n cfg flt server
                  (if matches (cache_save s3) \<ge> limit cfg then None else nextPage pg)
                  (cache_save s3) = Some (r, st')"
            by (simp add: online_loop.simps [of "Suc n"] fetchPage_def Let_def)
          with i4 show ?thesis by (rule Suc.IH)
        next
          case (Some e)
          with Suc.prems(2) go Data False p have "r = Some e" and "st' = s3"
            by (simp_all add: online_loop.simps [of "Suc n"] fetchPage_def Let_def)
          then show ?thesis
            using throw [OF Suc.prems(1) nl Data] p Some by simp
        qed
      qed
    qed
  qed
qed

text \<open>An invariant that looks at the counters and the queue only.\<close>

definition counters_only :: "(state \<Rightarrow> bool) \<Rightarrow> bool" where
  "counters_only I =
     (\<forall>st c f ev. I (st\<lparr>store := c\<rparr>) = I st \<and> I (st\<lparr>fs := f\<rparr>) = I st \<and> I (st\<lparr>events := ev\<rparr>) = I st)"

lemma counters_only_updates:
  assumes "counters_only I"
  shows "I (st\<lparr>store := c\<rparr>) = I st" "I (st\<lparr>fs := f\<rparr>) = I st" "I (st\<lparr>events := ev\<rparr>) = I st"
  using assms by (simp_all add: counters_only_def)

lemma counters_only_emit: "counters_only I \<Longrightarrow> I (emit e st) = I st"
  by (simp add: emit_def counters_only_updates)

lemma counters_only_cache_save: "counters_only I \<Longrightarrow> I (cache_save st) = I st"
  by (simp add: cache_save_def Let_def counters_only_emit counters_only_updates split: prod.splits)

lemma counters_only_cache_upsertBatch: "counters_only I \<Longrightarrow> I (cache_upsertBatch its st) = I st"
  by (simp add: cache_upsertBatch_def counters_only_emit counters_only_updates)

lemma online_loop_invariant:
  assumes co: "counters_only I"
    and pb: "\<And>s its. I s \<Longrightarrow> I (snd (processBatch cfg flt its s))"
    and start: "I st"
    and loop: "online_loop n cfg flt server u st = Some (r, st')"
  shows "I st'"
proof (rule online_loop_rule [where I = I and J = "\<lambda>r. I", OF start loop])
  fix s v pg s3
  assume "I s" and "processBatch cfg flt (items pg) (cache_upsertBatch (items pg) (emit (Fetch v) s)) = (None, s3)"
  then show "I (cache_save s3)"
    using pb [of "cache_upsertBatch (items pg) (emit (Fetch v) s)" "items pg"]
    by (simp add: counters_only_cache_save [OF co] counters_only_cache_upsertBatch [OF co]
          counters_only_emit [OF co])
next
  fix s v pg e s3
  assume "I s" and "processBatch cfg flt (items pg) (cache_upsertBatch (items pg) (emit (Fetch v) s)) = (Some e, s3)"
  then show "I s3"
    using pb [of "cache_upsertBatch (items pg) (emit (Fetch v) s)" "items pg"]
    by (simp add: counters_only_cache_upsertBatch [OF co] counters_only_emit [OF co])
qed (simp_all add: counters_only_cache_save [OF co] counters_only_emit [OF co])

lemma run_invariant:
  assumes co: "counters_only I"
    and pb: "\<And>s its. I s \<Longrightarrow> I (snd (processBatch cfg flt its s))"
    and start: "I (initial_state f)"
    and run: "run n cfg flt server f = Some (e, fin)"
  shows "I fin"
proof -
  obtain thrown st where init: "initialize cfg (initial_state f) = (thrown, st)"
    by (cases "initialize cfg (initial_state f)")
  then have i: "I st"
    using start
    by (auto simp: initialize_def Let_def counters_only_emit [OF co] counters_only_updates [OF co]
          split: prod.splits if_splits)
  show ?thesis
  proof (cases "thrown \<or> offline cfg")
    case True
    with run init i pb [OF i, of "getAll (store st)"] show ?thesis
      by (auto simp: run_def runOfflineStrategy_def on_error_def finalize_def
            counters_only_emit [OF co] counters_only_cache_save [OF co]
            split: prod.splits option.splits bool.splits if_splits)
  next
    case False
    with run init obtain r st1 where
      l: "online_loop n cfg flt server (Some (first_url cfg)) st = Some (r, st1)"
      and fin: "fin = (case r of None \<Rightarrow> finalize st1 | Some x \<Rightarrow> snd (on_error x st1))"
      by (auto simp: run_def runOnlineStrategy_def split: option.splits prod.splits)
    have "I st1"
      using co pb i l by (rule online_loop_invariant)
    then show ?thesis
      by (simp add: fin on_error_def finalize_def counters_only_emit [OF co]
            counters_only_cache_save [OF co] split: option.splits)
  qed
qed

lemma counters_only_balanced: "counters_only balanced"
  by (simp add: counters_only_def balanced_def)

lemma counters_only_under_limit: "counters_only (under_limit cfg)"
  by (simp add: counters_only_def under_limit_def)

text \<open>The state at the end of the run of the scenario.\<close>

definition example_final :: state where
  "example_final = snd (the (run 5 example_config example_filter example_server example_fs))"

text \<open>
  C2. In a state where \<^verbatim>\<open>matches\<close> has reached the limit, \<^verbatim>\<open>processBatch\<close> of
  any batch and the loop of \<^verbatim>\<open>runOnlineStrategy\<close> at any URL return at once and
  leave the state as it is: no record is scanned, no page is requested and no download is
  handed to the queue. The rest of a batch behind the record that reached the limit is
  not scanned. A record that passes the filter below the limit adds one to
  \<^verbatim>\<open>matches\<close> and one to exactly one of \<^verbatim>\<open>skipped\<close> (its file is there) and
  \<^verbatim>\<open>downloaded\<close> (its job goes to the queue). However \<^verbatim>\<open>run\<close> ends,
  \<^verbatim>\<open>downloaded + skipped = matches\<close> holds at its end, the queue holds as many jobs
  as \<^verbatim>\<open>downloaded\<close> counts, and \<^verbatim>\<open>matches\<close> is not above a limit that is not
  negative.
\<close>

theorem match_limit_is_a_hard_ceiling:
  "(isLimitReached cfg st \<longrightarrow>
      processBatch cfg flt its st = (None, st) \<and> online_loop n cfg flt server u st = Some (None, st))
   \<and> (processBatch cfg flt xs st1 = (None, st2) \<and> isLimitReached cfg st2 \<longrightarrow>
        processBatch cfg flt (xs @ ys) st1 = (None, st2))
   \<and> (\<not> isLimitReached cfg st3 \<and> test flt (prompt it) = Inr True \<longrightarrow>
        (\<exists>st4. processBatch cfg flt [it] st3 = (None, st4)
           \<and> matches st4 = matches st3 + 1
           \<and> (if hasFile (store st3) (item_id it)
               then skipped st4 = skipped st3 + 1 \<and> downloaded st4 = downloaded st3
                    \<and> queue st4 = queue st3
               else downloaded st4 = downloaded st3 + 1 \<and> skipped st4 = skipped st3
                    \<and> queue st4 = queue st3 @ [it])))
   \<and> (run m cfg flt server f = Some (e, fin) \<longrightarrow>
        downloaded fin + skipped fin = matches fin
        \<and> int (length (queue fin)) = downloaded fin
        \<and> (0 \<le> limit cfg \<longrightarrow> matches fin \<le> limit cfg))"
proof -
  have a: "processBatch cfg flt its st = (None, st) \<and> online_loop n cfg flt server u st = Some (None, st)"
    if "isLimitReached cfg st"
    using that by (simp add: processBatch_limit_reached online_loop_limit_reached)
  have b: "processBatch cfg flt (xs @ ys) st1 = (None, st2)"
    if "processBatch cfg flt xs st1 = (None, st2)" and "isLimitReached cfg st2"
    using that by (simp add: processBatch_append processBatch_limit_reached)
  have c: "\<exists>st4. processBatch cfg flt [it] st3 = (None, st4)
           \<and> matches st4 = matches st3 + 1
           \<and> (if hasFile (store st3) (item_id it)
               then skipped st4 = skipped st3 + 1 \<and> downloaded st4 = downloaded st3
                    \<and> queue st4 = queue st3
               else downloaded st4 = downloaded st3 + 1 \<and> skipped st4 = skipped st3
                    \<and> queue st4 = queue st3 @ [it])"
    if "\<not> isLimitReached cfg st3" and "test flt (prompt it) = Inr True"
    using that
    by (cases "hasFile (store st3) (item_id it)")
       (simp_all add: processBatch_Cons scan_item_def skip_item_def download_item_def emit_def
          updateScanStats_def enqueueDownload_def)
  have d: "downloaded fin + skipped fin = matches fin
        \<and> int (length (queue fin)) = downloaded fin
        \<and> (0 \<le> limit cfg \<longrightarrow> matches fin \<le> limit cfg)"
    if r: "run m cfg flt server f = Some (e, fin)"
  proof -
    have b0: "balanced (initial_state f)"
      by (simp add: balanced_def initial_state_def)
    have u0: "under_limit cfg (initial_state f)"
      by (simp add: under_limit_def initial_state_def)
    have "balanced fin"
      using counters_only_balanced processBatch_balanced b0 r by (rule run_invariant)
    moreover have "under_limit cfg fin"
      using counters_only_under_limit processBatch_under_limit u0 r by (rule run_invariant)
    ultimately show ?thesis
      by (auto simp: balanced_def under_limit_def)
  qed
  from a b c d show ?thesis by blast
qed

text \<open>
  The scenario: the run ends with two matches and two downloads after four scanned
  records; in its last state a further batch and the loop at the third page do nothing.
\<close>

theorem match_limit_is_a_hard_ceiling_witness:
  "run 5 example_config example_filter example_server example_fs = Some (Finalized, example_final)
   \<and> matches example_final = 2 \<and> downloaded example_final + skipped example_final = 2
   \<and> isLimitReached example_config example_final
   \<and> processBatch example_config example_filter [record_of 5 ''a cat'', record_of 6 ''a fish''] example_final
        = (None, example_final)
   \<and> online_loop 3 example_config example_filter example_server (Some ''page3'') example_final
        = Some (None, example_final)
   \<and> \<not> isLimitReached example_config (initial_state example_fs)
   \<and> test example_filter (prompt (record_of 1 ''a cat'')) = Inr True
   \<and> (\<exists>st4. processBatch example_config example_filter [record_of 1 ''a cat''] (initial_state example_fs) = (None, st4)
        \<and> matches st4 = 1 \<and> downloaded st4 = 1 \<and> skipped st4 = 0 \<and> queue st4 = [record_of 1 ''a cat''])
   \<and> processBatch example_config example_filter
        ([record_of 1 ''a cat'', record_of 2 ''a dog'', record_of 4 ''two cats''] @ [record_of 5 ''a cat''])
        (initial_state example_fs)
      = processBatch example_config example_filter
        [record_of 1 ''a cat'', record_of 2 ''a dog'', record_of 4 ''two cats'']
        (initial_state example_fs)"
proof -
  have r: "run 5 example_config example_filter example_server example_fs = Some (Finalized, example_final)"
    by code_simp
  have m: "matches example_final = 2"
    by code_simp
  have l: "isLimitReached example_config example_final"
    by code_simp
  have n: "\<not> isLimitReached example_config (initial_state example_fs)"
    by code_simp
  have t: "test example_filter (prompt (record_of 1 ''a cat'')) = Inr True"
    by code_simp
  have h: "\<not> hasFile (store (initial_state example_fs)) (item_id (record_of 1 ''a cat''))"
    by code_simp
  have z: "matches (initial_state example_fs) = 0 \<and> downloaded (initial_state example_fs) = 0
      \<and> skipped (initial_state example_fs) = 0 \<and> queue (initial_state example_fs) = []"
    by (simp add: initial_state_def)
  define st2 where "st2 = snd (processBatch example_config example_filter
        [record_of 1 ''a cat'', record_of 2 ''a dog'', record_of 4 ''two cats'']
        (initial_state example_fs))"
  have "fst (processBatch example_config example_filter
        [record_of 1 ''a cat'', record_of 2 ''a dog'', record_of 4 ''two cats'']
        (initial_state example_fs)) = None"
    by code_simp
  then have p: "processBatch example_config example_filter
        [record_of 1 ''a cat'', record_of 2 ''a dog'', record_of 4 ''two cats'']
        (initial_state example_fs) = (None, st2)"
    unfolding st2_def by (metis prod.collapse)
  have l2: "isLimitReached example_config st2"
    unfolding st2_def by code_simp
  note T = match_limit_is_a_hard_ceiling
    [of example_config example_final example_filter "[record_of 5 ''a cat'', record_of 6 ''a fish'']"
      3 example_server "Some ''page3''"
      "[record_of 1 ''a cat'', record_of 2 ''a dog'', record_of 4 ''two cats'']"
      "initial_state example_fs" st2 "[record_of 5 ''a cat'']"
      "initial_state example_fs" "record_of 1 ''a cat''"
      5 example_fs Finalized example_final]
  from T r m l n t h z p l2 show ?thesis
    by (simp del: processBatch.simps)
qed

section \<open>The order of the steps of a round\<close>

fun scanned_ids :: "event list \<Rightarrow> ident list" where
  "scanned_ids [] = []"
| "scanned_ids (Scan i # es) = i # scanned_ids es"
| "scanned_ids (e # es) = scanned_ids es"

definition scan_only :: "event list \<Rightarrow> bool" where
  "scan_only es = (set es \<subseteq> range Scan \<union> range Enqueue)"

lemma scanned_ids_append: "scanned_ids (xs @ ys) = scanned_ids xs @ scanned_ids ys"
  by (induction xs rule: scanned_ids.induct) auto

lemma scan_only_append: "scan_only (xs @ ys) \<longleftrightarrow> scan_only xs \<and> scan_only ys"
  by (auto simp: scan_only_def)

lemma events_scan_item: "events (scan_item it st) = events st @ [Scan (item_id it)]"
  by (simp add: scan_item_def emit_def updateScanStats_def)

lemma events_skip_item: "events (skip_item st) = events st"
  by (simp add: skip_item_def)

lemma events_download_item: "events (download_item it st) = events st @ [Enqueue (item_id it)]"
  by (simp add: download_item_def enqueueDownload_def emit_def)

lemma isLimitReached_events [simp]: "isLimitReached cfg (st\<lparr>events := ev\<rparr>) = isLimitReached cfg st"
  by (simp add: isLimitReached_def)

text \<open>
  The events of a batch: the records are scanned in their order, a prefix of the batch,
  and all of it when the loop ends without an exception and below the limit.
\<close>

lemma processBatch_events:
  "\<exists>es k. events (snd (processBatch cfg flt its st)) = events st @ es \<and> scan_only es
       \<and> k \<le> length its \<and> scanned_ids es = map item_id (take k its)
       \<and> (fst (processBatch cfg flt its st) = None
            \<and> \<not> isLimitReached cfg (snd (processBatch cfg flt its st)) \<longrightarrow> k = length its)"
proof (induction its arbitrary: st)
  case Nil
  show ?case by (simp add: scan_only_def)
next
  case (Cons x xs)
  show ?case
  proof (cases "isLimitReached cfg st")
    case True
    then have "processBatch cfg flt (x # xs) st = (None, st)"
      by (rule processBatch_limit_reached)
    then show ?thesis
      using True by (auto simp: scan_only_def intro!: exI [of _ "[]"] exI [of _ 0])
  next
    case False
    have step: "\<exists>es k. events (snd (processBatch cfg flt xs s)) = events st @ es \<and> scan_only es
       \<and> k \<le> length (x # xs) \<and> scanned_ids es = map item_id (take k (x # xs))
       \<and> (fst (processBatch cfg flt xs s) = None
            \<and> \<not> isLimitReached cfg (snd (processBatch cfg flt xs s)) \<longrightarrow> k = length (x # xs))"
      if ev: "events s = events st @ Scan (item_id x) # extra" and ex: "scan_only extra" "scanned_ids extra = []"
      for s extra
    proof -
      from Cons.IH [of s] obtain es k where
        e: "events (snd (processBatch cfg flt xs s)) = events s @ es" and so: "scan_only es"
        and k: "k \<le> length xs" and ids: "scanned_ids es = map item_id (take k xs)"
        and all: "fst (processBatch cfg flt xs s) = None
            \<and> \<not> isLimitReached cfg (snd (processBatch cfg flt xs s)) \<longrightarrow> k = length xs"
        by blast
      show ?thesis
        apply (rule exI [of _ "Scan (item_id x) # extra @ es"])
        apply (rule exI [of _ "Suc k"])
        using e so k ids all ev ex
        apply (auto simp: scan_only_def scanned_ids_append)
        done
    qed
    have s1: "events (scan_item x st) = events st @ Scan (item_id x) # []"
      by (simp add: events_scan_item)
    have s2: "events (skip_item (scan_item x st)) = events st @ Scan (item_id x) # []"
      by (simp add: events_scan_item events_skip_item)
    have s3: "events (download_item x (scan_item x st)) = events st @ Scan (item_id x) # [Enqueue (item_id x)]"
      by (simp add: events_scan_item events_download_item)
    have so: "scan_only []" "scanned_ids [] = []" "scan_only [Enqueue (item_id x)]"
      "scanned_ids [Enqueue (item_id x)] = []"
      by (simp_all add: scan_only_def)
    show ?thesis
    proof (cases "test flt (prompt x)")
      case (Inl e)
      with False have "processBatch cfg flt (x # xs) st = (Some e, scan_item x st)"
        by (simp add: processBatch_Cons del: processBatch.simps)
      then show ?thesis
        by (auto simp: events_scan_item scan_only_def intro!: exI [of _ "[Scan (item_id x)]"] exI [of _ 1])
    next
      case (Inr ok)
      show ?thesis
      proof (cases ok)
        case False
        with Inr \<open>\<not> isLimitReached cfg st\<close>
        have "processBatch cfg flt (x # xs) st = processBatch cfg flt xs (scan_item x st)"
          by (simp add: processBatch_Cons del: processBatch.simps)
        then show ?thesis
          using step [OF s1 so(1,2)] by simp
      next
        case True
        show ?thesis
        proof (cases "hasFile (store st) (item_id x)")
          case h: True
          with Inr True \<open>\<not> isLimitReached cfg st\<close>
          have "processBatch cfg flt (x # xs) st = processBatch cfg flt xs (skip_item (scan_item x st))"
            by (simp add: processBatch_Cons del: processBatch.simps)
          then show ?thesis
            using step [OF s2 so(1,2)] by simp
        next
          case h: False
          with Inr True \<open>\<not> isLimitReached cfg st\<close>
          have "processBatch cfg flt (x # xs) st = processBatch cfg flt xs (download_item x (scan_item x st))"
            by (simp add: processBatch_Cons del: processBatch.simps)
          then show ?thesis
            using step [OF s3 so(3,4)] by simp
        qed
      qed
    qed
  qed
qed

lemma processBatch_store_fs:
  "store (snd (processBatch cfg flt its st)) = store st \<and> fs (snd (processBatch cfg flt its st)) = fs st"
  by (rule processBatch_invariant [where I = "\<lambda>s. store s = store st \<and> fs s = fs st"])
     (simp_all add: scan_item_def skip_item_def download_item_def emit_def updateScanStats_def
        enqueueDownload_def)

lemma events_emit: "events (emit e st) = events st @ [e]"
  by (simp add: emit_def)

lemma events_cache_save:
  "events (cache_save st) =
     events st @ Save (map item_id (getAll (store st)))
       # (if writable (fs st) then [] else [Print FailedToSave])"
  by (simp add: cache_save_def save_def emit_def Let_def)

lemma events_cache_upsertBatch:
  "events (cache_upsertBatch its st) = events st @ [Upsert (map item_id its)]"
  by (simp add: cache_upsertBatch_def emit_def)

lemma cache_save_fields:
  "scanned (cache_save st) = scanned st" "matches (cache_save st) = matches st"
  "downloaded (cache_save st) = downloaded st" "skipped (cache_save st) = skipped st"
  "queue (cache_save st) = queue st" "store (cache_save st) = store st"
  "writable (fs st) \<Longrightarrow> metadata_json (fs (cache_save st)) = Records (getAll (store st))"
  by (simp_all add: cache_save_def save_def emit_def Let_def)

text \<open>
  C5, as the claim states it, fails: in the scenario the three records of the first page
  are scanned, and the download of record 1 is queued, before the cache is saved for the
  first time.
\<close>

theorem records_are_scanned_before_the_save_counterexample:
  "run 5 example_config example_filter example_server example_fs = Some (Finalized, example_final)
   \<and> take 7 (events example_final) =
      [Fetch (first_url example_config), Upsert [IdNum 1, IdNum 2, IdNum 3],
       Scan (IdNum 1), Enqueue (IdNum 1), Scan (IdNum 2), Scan (IdNum 3),
       Save [IdNum 1, IdNum 2, IdNum 3]]"
  by code_simp

text \<open>
  C5, amended. For every page that was fetched and is not empty, one round of the loop
  upserts the records of the page into the cache, then scans the records of the page in
  their order through the per-item logic, up to the record that reaches the match limit
  (all of them when the limit is not reached), and then saves the cache, the page
  included, to the file. When the filter throws, the round ends with the exception in
  place of the save, which the \<^verbatim>\<open>catch\<close> block of \<^verbatim>\<open>run\<close> then does.
\<close>

theorem page_is_upserted_scanned_then_saved:
  assumes "truthy u" and "\<not> isLimitReached cfg st" and "server (the u) = Data pg"
    and "items pg \<noteq> []"
  shows "\<exists>r st3 es k.
      processBatch cfg flt (items pg) (cache_upsertBatch (items pg) (emit (Fetch (the u)) st)) = (r, st3)
    \<and> store st3 = upsertBatch (items pg) (store st)
    \<and> events st3 = events st @ [Fetch (the u), Upsert (map item_id (items pg))] @ es
    \<and> scan_only es \<and> k \<le> length (items pg) \<and> scanned_ids es = map item_id (take k (items pg))
    \<and> (r = None \<and> \<not> isLimitReached cfg st3 \<longrightarrow> k = length (items pg))
    \<and> events (cache_save st3) =
        events st3 @ Save (map item_id (getAll (store st3)))
          # (if writable (fs st) then [] else [Print FailedToSave])
    \<and> (writable (fs st) \<longrightarrow> metadata_json (fs (cache_save st3)) = Records (getAll (store st3)))
    \<and> online_loop (Suc n) cfg flt server u st =
        (case r of
           Some e \<Rightarrow> Some (Some e, st3)
         | None \<Rightarrow> online_loop n cfg flt server
                     (if limit cfg \<le> matches st3 then None else nextPage pg) (cache_save st3))"
proof -
  define st2 where "st2 = cache_upsertBatch (items pg) (emit (Fetch (the u)) st)"
  obtain r st3 where p: "processBatch cfg flt (items pg) st2 = (r, st3)"
    by (cases "processBatch cfg flt (items pg) st2")
  from processBatch_events [of cfg flt "items pg" st2] p
  obtain es k where e: "events st3 = events st2 @ es" and so: "scan_only es"
    and k: "k \<le> length (items pg)" and ids: "scanned_ids es = map item_id (take k (items pg))"
    and all: "r = None \<and> \<not> isLimitReached cfg st3 \<longrightarrow> k = length (items pg)"
    by auto
  from processBatch_store_fs [of cfg flt "items pg" st2] p
  have sf: "store st3 = store st2" "fs st3 = fs st2"
    by simp_all
  have st2: "store st2 = upsertBatch (items pg) (store st)" "fs st2 = fs st"
    "events st2 = events st @ [Fetch (the u), Upsert (map item_id (items pg))]"
    by (simp_all add: st2_def cache_upsertBatch_def emit_def)
  have ne: "\<not> isUserEmpty (items pg) (emit (Fetch (the u)) st)"
    using assms(4) by (simp add: isUserEmpty_def)
  have loop: "online_loop (Suc n) cfg flt server u st =
        (case r of
           Some e \<Rightarrow> Some (Some e, st3)
         | None \<Rightarrow> online_loop n cfg flt server
                     (if limit cfg \<le> matches st3 then None else nextPage pg) (cache_save st3))"
    using assms(1,2,3) ne p
    by (simp add: online_loop.simps [of "Suc n"] fetchPage_def Let_def st2_def [symmetric]
          cache_save_fields split: option.splits)
  show ?thesis
    apply (rule exI [of _ r], rule exI [of _ st3], rule exI [of _ es], rule exI [of _ k])
    using p e so k ids all sf st2 loop
    apply (simp add: st2_def [symmetric] events_cache_save cache_save_fields)
    done
qed

theorem page_is_upserted_scanned_then_saved_witness:
  "truthy (Some (first_url example_config))
   \<and> \<not> isLimitReached example_config (initial_state example_fs)
   \<and> example_server (the (Some (first_url example_config))) = Data example_page1
   \<and> items example_page1 \<noteq> []
   \<and> (\<exists>r st3 es k.
      processBatch example_config example_filter (items example_page1)
        (cache_upsertBatch (items example_page1)
           (emit (Fetch (the (Some (first_url example_config)))) (initial_state example_fs))) = (r, st3)
    \<and> store st3 = upsertBatch (items example_page1) (store (initial_state example_fs))
    \<and> events st3 = events (initial_state example_fs)
         @ [Fetch (the (Some (first_url example_config))), Upsert (map item_id (items example_page1))] @ es
    \<and> scan_only es \<and> k \<le> length (items example_page1)
    \<and> scanned_ids es = map item_id (take k (items example_page1))
    \<and> (r = None \<and> \<not> isLimitReached example_config st3 \<longrightarrow> k = length (items example_page1))
    \<and> events (cache_save st3) =
        events st3 @ Save (map item_id (getAll (store st3)))
          # (if writable (fs (initial_state example_fs)) then [] else [Print FailedToSave])
    \<and> (writable (fs (initial_state example_fs)) \<longrightarrow>
          metadata_json (fs (cache_save st3)) = Records (getAll (store st3)))
    \<and> online_loop (Suc 4) example_config example_filter example_server
          (Some (first_url example_config)) (initial_state example_fs) =
        (case r of
           Some e \<Rightarrow> Some (Some e, st3)
         | None \<Rightarrow> online_loop 4 example_config example_filter example_server
                     (if limit example_config \<le> matches st3 then None else nextPage example_page1)
                     (cache_save st3)))"
proof -
  have a: "truthy (Some (first_url example_config))"
    by code_simp
  have b: "\<not> isLimitReached example_config (initial_state example_fs)"
    by code_simp
  have c: "example_server (the (Some (first_url example_config))) = Data example_page1"
    by (simp add: example_server_def)
  have d: "items example_page1 \<noteq> []"
    by (simp add: example_page1_def)
  note T = page_is_upserted_scanned_then_saved
    [where cfg = example_config and flt = example_filter and n = 4
       and server = example_server, OF a b c d]
  show ?thesis
    using a b c d T by (intro conjI)
qed

section \<open>Failed page requests\<close>

definition reported :: "event list \<Rightarrow> bool" where
  "reported es =
     (Print UserNotFound \<in> set es \<or> Print AuthorizationFailed \<in> set es \<or> Print ApiError \<in> set es)"

lemma reported_append: "reported (xs @ ys) \<longleftrightarrow> reported xs \<or> reported ys"
  by (auto simp: reported_def)

lemma scan_only_not_reported: "scan_only es \<Longrightarrow> \<not> reported es"
  by (auto simp: scan_only_def reported_def)

lemma cache_save_not_reported: "reported (events (cache_save st)) = reported (events st)"
  by (simp add: events_cache_save reported_append) (simp add: reported_def)

lemma processBatch_not_reported:
  "reported (events (snd (processBatch cfg flt its st))) = reported (events st)"
  using processBatch_events [of cfg flt its st]
  by (auto simp: reported_append dest: scan_only_not_reported)

lemma page_not_reported:
  assumes "\<not> reported (events s)"
    and "processBatch cfg flt its (cache_upsertBatch its (emit (Fetch v) s)) = (x, s3)"
  shows "\<not> reported (events s3)"
proof -
  have "reported (events s3) = reported (events (cache_upsertBatch its (emit (Fetch v) s)))"
    using processBatch_not_reported [of cfg flt its "cache_upsertBatch its (emit (Fetch v) s)"] assms(2)
    by simp
  also have "\<dots> = reported (events s)"
    by (simp add: events_cache_upsertBatch events_emit reported_append) (simp add: reported_def)
  finally show ?thesis using assms(1) by simp
qed

text \<open>A loop that has reported a failed request has ended without an exception.\<close>

lemma online_loop_reported:
  assumes "\<not> reported (events st)"
    and "online_loop n cfg flt server u st = Some (r, st')"
    and "reported (events st')"
  shows "r = None"
proof -
  have "reported (events st') \<longrightarrow> r = None"
  proof (rule online_loop_rule
      [where I = "\<lambda>s. \<not> reported (events s)" and J = "\<lambda>r s. reported (events s) \<longrightarrow> r = None",
        OF assms(1) assms(2)])
    fix s v pg s3
    assume "\<not> reported (events s)"
      and "processBatch cfg flt (items pg) (cache_upsertBatch (items pg) (emit (Fetch v) s)) = (None, s3)"
    then have "\<not> reported (events s3)" by (rule page_not_reported)
    then show "\<not> reported (events (cache_save s3))"
      by (simp add: cache_save_not_reported)
  next
    fix s v pg e s3
    assume "\<not> reported (events s)"
      and "processBatch cfg flt (items pg) (cache_upsertBatch (items pg) (emit (Fetch v) s)) = (Some e, s3)"
    then have "\<not> reported (events s3)" by (rule page_not_reported)
    then show "reported (events s3) \<longrightarrow> Some e = None" by simp
  qed simp_all
  with assms(3) show ?thesis by simp
qed

text \<open>
  C6, amended. When a page request fails, the round reports the failure by its class
  (404: user not found; 401 and 403: authorization failed; anything else: API error),
  saves the cache as it stands to the file, and ends the loop without an exception:
  nothing is scanned, counted or queued, and no further page is requested. Every run
  that has reported a failed request ends through \<^verbatim>\<open>finalize\<close>, with the last save
  and the summary, not through the \<^verbatim>\<open>catch\<close> block.
\<close>

theorem fetch_failure_ends_scan_then_finalize:
  "(truthy u \<and> \<not> isLimitReached cfg st \<and> server (the u) = HttpError status \<longrightarrow>
      (\<exists>st'. online_loop (Suc n) cfg flt server u st = Some (None, st')
         \<and> scanned st' = scanned st \<and> matches st' = matches st \<and> downloaded st' = downloaded st
         \<and> skipped st' = skipped st \<and> queue st' = queue st \<and> store st' = store st
         \<and> events st' = events st
              @ [Fetch (the u), Print (classify status), Save (map item_id (getAll (store st)))]
              @ (if writable (fs st) then [] else [Print FailedToSave])
         \<and> (writable (fs st) \<longrightarrow> metadata_json (fs st') = Records (getAll (store st)))))
   \<and> classify (Some 404) = UserNotFound \<and> classify (Some 401) = AuthorizationFailed
   \<and> classify (Some 403) = AuthorizationFailed \<and> classify (Some 500) = ApiError
   \<and> classify None = ApiError
   \<and> (run m cfg flt server f = Some (e, fin) \<and> reported (events fin) \<longrightarrow>
        e = Finalized \<and> last (events fin) = Print Summary)"
proof -
  have a: "\<exists>st'. online_loop (Suc n) cfg flt server u st = Some (None, st')
         \<and> scanned st' = scanned st \<and> matches st' = matches st \<and> downloaded st' = downloaded st
         \<and> skipped st' = skipped st \<and> queue st' = queue st \<and> store st' = store st
         \<and> events st' = events st
              @ [Fetch (the u), Print (classify status), Save (map item_id (getAll (store st)))]
              @ (if writable (fs st) then [] else [Print FailedToSave])
         \<and> (writable (fs st) \<longrightarrow> metadata_json (fs st') = Records (getAll (store st)))"
    if "truthy u" "\<not> isLimitReached cfg st" "server (the u) = HttpError status"
  proof -
    have "online_loop (Suc n) cfg flt server u st
        = Some (None, cache_save (emit (Print (classify status)) (emit (Fetch (the u)) st)))"
      using that by (simp add: online_loop.simps [of "Suc n"] fetchPage_def Let_def)
    then show ?thesis
      by (simp add: cache_save_fields events_cache_save) (simp add: emit_def)
  qed
  have b: "classify (Some 404) = UserNotFound \<and> classify (Some 401) = AuthorizationFailed
   \<and> classify (Some 403) = AuthorizationFailed \<and> classify (Some 500) = ApiError
   \<and> classify None = ApiError"
    by (simp add: classify_def)
  have c: "e = Finalized \<and> last (events fin) = Print Summary"
    if r: "run m cfg flt server f = Some (e, fin)" and rep: "reported (events fin)"
  proof -
    obtain thrown st where init: "initialize cfg (initial_state f) = (thrown, st)"
      by (cases "initialize cfg (initial_state f)")
    then have q: "\<not> reported (events st)"
      by (auto simp: initialize_def Let_def initial_state_def emit_def reported_def
            split: prod.splits if_splits)
    show ?thesis
    proof (cases "thrown \<or> offline cfg")
      case True
      obtain x st1 where p: "processBatch cfg flt (getAll (store st)) st = (x, st1)"
        by (cases "processBatch cfg flt (getAll (store st)) st")
      have "\<not> reported (events st1)"
        using processBatch_not_reported [of cfg flt "getAll (store st)" st] p q by simp
      then have "\<not> reported (events fin)"
        using r init True p q
        by (auto simp: run_def runOfflineStrategy_def on_error_def finalize_def events_emit
              cache_save_not_reported reported_append split: option.splits bool.splits if_splits)
           (simp_all add: reported_def)
      with rep show ?thesis by simp
    next
      case False
      with r init obtain x st1 where
        l: "online_loop m cfg flt server (Some (first_url cfg)) st = Some (x, st1)"
        and fin: "(e, fin) = (case x of None \<Rightarrow> (Finalized, finalize st1) | Some y \<Rightarrow> on_error y st1)"
        by (auto simp: run_def runOnlineStrategy_def split: option.splits prod.splits)
      have "reported (events st1)"
        using rep fin
        by (auto simp: on_error_def finalize_def events_emit cache_save_not_reported reported_append
              split: option.splits)
           (simp_all add: reported_def)
      with q l have "x = None" by (rule online_loop_reported)
      with fin show ?thesis
        by (simp add: finalize_def events_emit)
    qed
  qed
  from a b c show ?thesis by blast
qed

text \<open>The state at the end of a run against the failing listing.\<close>

definition failed_final :: state where
  "failed_final = snd (the (run 1 example_config example_filter failing_server example_fs))"

theorem fetch_failure_ends_scan_then_finalize_witness:
  "truthy (Some (first_url example_config))
   \<and> \<not> isLimitReached example_config (initial_state example_fs)
   \<and> failing_server (the (Some (first_url example_config))) = HttpError (Some 404)
   \<and> online_loop (Suc 0) example_config example_filter failing_server
        (Some (first_url example_config)) (initial_state example_fs)
      = Some (None, (initial_state example_fs)
           \<lparr>fs := example_fs\<lparr>metadata_json := Records []\<rparr>,
            events := [Fetch (first_url example_config), Print UserNotFound, Save []]\<rparr>)
   \<and> run 1 example_config example_filter failing_server example_fs = Some (Finalized, failed_final)
   \<and> reported (events failed_final)
   \<and> last (events failed_final) = Print Summary"
proof -
  have a: "truthy (Some (first_url example_config))"
    by code_simp
  have b: "\<not> isLimitReached example_config (initial_state example_fs)"
    by code_simp
  have c: "failing_server (the (Some (first_url example_config))) = HttpError (Some 404)"
    by (simp add: failing_server_def)
  have l: "online_loop (Suc 0) example_config example_filter failing_server
        (Some (first_url example_config)) (initial_state example_fs)
      = Some (None, (initial_state example_fs)
           \<lparr>fs := example_fs\<lparr>metadata_json := Records []\<rparr>,
            events := [Fetch (first_url example_config), Print UserNotFound, Save []]\<rparr>)"
    by code_simp
  have r: "run 1 example_config example_filter failing_server example_fs = Some (Finalized, failed_final)"
    by code_simp
  have p: "reported (events failed_final)"
    by code_simp
  note T = fetch_failure_ends_scan_then_finalize
    [of "Some (first_url example_config)" example_config "initial_state example_fs" failing_server
      "Some 404" 0 example_filter 1 example_fs Finalized failed_final]
  from T a b c r p have "last (events failed_final) = Print Summary"
    by blast
  with a b c l r p show ?thesis by blast
qed

text \<open>
  C6, as the claim states it, fails: with a listing that answers 404 the run reports
  "user not found", saves, and then completes through \<^verbatim>\<open>finalize\<close> with the
  summary. It does not end in the failure-reporting step: "Fatal Error" is never printed.
\<close>

theorem fetch_failure_is_not_fatal_counterexample:
  "run 1 example_config example_filter failing_server example_fs = Some (Finalized, failed_final)
   \<and> events failed_final =
       [Fetch (first_url example_config), Print UserNotFound, Save [], Save [], Print Summary]
   \<and> Print FatalError \<notin> set (events failed_final)"
  by code_simp

end
